theory Spec2Isabelle
  imports Main "HOL-Library.Word"
begin

unbundle bit_operations_syntax

section \<open>Machine integers\<close>

text \<open>
  \<^verbatim>\<open>std::size_t\<close> is a 64-bit unsigned integer and \<^verbatim>\<open>uint32_t\<close> a 32-bit one.
  Both are modelled on \<open>nat\<close> with the wrap-around written out: \<open>size_t x\<close> is the
  value an arithmetic result \<open>x\<close> has once it is stored in a \<^verbatim>\<open>std::size_t\<close>.
\<close>

definition size_t :: "nat \<Rightarrow> nat" where
  "size_t x = x mod 2 ^ 64"

definition uint32_t :: "nat \<Rightarrow> nat" where
  "uint32_t x = x mod 2 ^ 32"

section \<open>Slots and views\<close>

text \<open>
  The cooperative insert is enabled for keys of four bytes and reads two slots with one
  16-byte load, so key and mapped value are 32-bit words. (The overload for keys of eight
  bytes has the same text with a 32-byte load.) A slot is the pair of its key field and
  its value field; the slot storage is the array of all slots and a pointer to a slot is
  its index in the array.
\<close>

type_synonym key_type = "32 word"
type_synonym mapped_type = "32 word"
type_synonym slot = "key_type \<times> mapped_type"
type_synonym slots = "slot list"

record device_view_base =
  capacity :: nat
  empty_key_sentinel :: key_type
  empty_value_sentinel :: mapped_type
  step_size :: nat

section \<open>Probe sequence engine\<close>

text \<open>
  \<^verbatim>\<open>initial_slot(k, hash)\<close> and \<^verbatim>\<open>next_slot(s)\<close>: linear probing of a single lane.
  The remainder by a zero capacity is undefined in the source and \<open>None\<close> here.
\<close>

definition initial_slot :: "device_view_base \<Rightarrow> (key_type \<Rightarrow> nat) \<Rightarrow> key_type \<Rightarrow> nat option" where
  "initial_slot v hash k =
     (if capacity v = 0 then None else Some (size_t (hash k) mod capacity v))"

definition next_slot :: "device_view_base \<Rightarrow> nat \<Rightarrow> nat" where
  "next_slot v s = (if s + 1 < capacity v then s + 1 else 0)"

text \<open>
  \<^verbatim>\<open>initial_slot(g, k, hash)\<close> for a cooperative group \<open>g\<close> of \<open>cg_size\<close> lanes, evaluated
  by the lane of rank \<open>thread_rank\<close>. It stores the step size in the view and returns the
  lane's slot index. All arithmetic is \<^verbatim>\<open>std::size_t\<close> arithmetic; the hash value is
  converted to \<^verbatim>\<open>std::size_t\<close> by the remainder operator. A group has at most 32 lanes, so
  \<^verbatim>\<open>cg_size * 2\<close> and \<^verbatim>\<open>thread_rank() * 2\<close> do not wrap. The sum \<^verbatim>\<open>k + 1\<close> is taken in the
  key type and wraps at 32 bits. The two remainders are undefined for a zero divisor: the
  result is \<open>None\<close> then.
\<close>

definition cg_initial_slot ::
  "device_view_base \<Rightarrow> nat \<Rightarrow> nat \<Rightarrow> (key_type \<Rightarrow> nat) \<Rightarrow> key_type
     \<Rightarrow> (device_view_base \<times> nat) option" where
  "cg_initial_slot v cg_size thread_rank hash k =
     (let windows = capacity v div (cg_size * 2);
          modulus = size_t (windows + 2 ^ 64 - 1)
      in if cg_size * 2 = 0 \<or> modulus = 0 \<or> windows = 0 then None
         else
           let step = size_t (size_t (size_t (size_t (hash (k + 1)) mod modulus + 1) * cg_size) * 2);
               h = size_t (hash k);
               slot_index =
                 size_t (size_t (size_t (h mod windows * cg_size) * 2) + thread_rank * 2)
           in Some (v\<lparr>step_size := step\<rparr>, slot_index))"

text \<open>
  \<^verbatim>\<open>next_slot(g, s)\<close>: the index of \<open>s\<close> is first stored in a \<^verbatim>\<open>uint32_t\<close>, then the
  step is added in \<^verbatim>\<open>std::size_t\<close> and reduced modulo the capacity.
\<close>

definition cg_next_slot :: "device_view_base \<Rightarrow> nat \<Rightarrow> nat option" where
  "cg_next_slot v s =
     (let index = uint32_t s
      in if capacity v = 0 then None
         else Some (size_t (index + step_size v) mod capacity v))"

text \<open>The slot a lane holds after \<open>n\<close> group steps from slot \<open>s\<close>.\<close>

fun cg_probe :: "device_view_base \<Rightarrow> nat \<Rightarrow> nat \<Rightarrow> nat option" where
  "cg_probe v s 0 = Some s"
| "cg_probe v s (Suc n) =
     (case cg_next_slot v s of None \<Rightarrow> None | Some s' \<Rightarrow> cg_probe v s' n)"

section \<open>Atomic operations on the slot storage\<close>

text \<open>
  The \<^verbatim>\<open>compare_exchange_strong\<close> and \<^verbatim>\<open>store\<close> calls of the insert, each on one field
  of the slot at index \<open>loc\<close>. An operation returns its boolean result with the storage
  after it; an index outside the storage is \<open>None\<close>.
\<close>

definition key_compare_exchange ::
  "nat \<Rightarrow> key_type \<Rightarrow> key_type \<Rightarrow> slots \<Rightarrow> (bool \<times> slots) option" where
  "key_compare_exchange loc expected desired m =
     (if length m \<le> loc then None
      else if fst (m ! loc) = expected then Some (True, m[loc := (desired, snd (m ! loc))])
      else Some (False, m))"

definition value_compare_exchange ::
  "nat \<Rightarrow> mapped_type \<Rightarrow> mapped_type \<Rightarrow> slots \<Rightarrow> (bool \<times> slots) option" where
  "value_compare_exchange loc expected desired m =
     (if length m \<le> loc then None
      else if snd (m ! loc) = expected then Some (True, m[loc := (fst (m ! loc), desired)])
      else Some (False, m))"

definition value_store :: "nat \<Rightarrow> mapped_type \<Rightarrow> slots \<Rightarrow> slots option" where
  "value_store loc desired m =
     (if length m \<le> loc then None else Some (m[loc := (fst (m ! loc), desired)]))"

text \<open>
  The 16-byte load at \<^verbatim>\<open>current_slot\<close>: it reads the slot at index \<open>s\<close> and the one after
  it.
\<close>

definition window_load :: "slots \<Rightarrow> nat \<Rightarrow> (slot \<times> slot) option" where
  "window_load m s = (if s + 1 < length m then Some (m ! s, m ! (s + 1)) else None)"

section \<open>Group collectives\<close>

text \<open>
  The lanes of a group run in lockstep; a variable that every lane holds is the list of
  its values, indexed by rank. \<^verbatim>\<open>g.ballot(p)\<close> is the mask whose bit \<open>r\<close> is the
  predicate of lane \<open>r\<close> (a group has at most 32 lanes, the mask 32 bits),
  \<^verbatim>\<open>__ffs(x)\<close> the position of the lowest set bit of \<open>x\<close> counted from one, and zero for
  \<open>x = 0\<close>, and \<^verbatim>\<open>g.any(p)\<close> holds when the predicate of some lane does.
\<close>

fun ballot :: "bool list \<Rightarrow> nat" where
  "ballot [] = 0"
| "ballot (p # ps) = (if p then 1 else 0) + 2 * ballot ps"

function ffs :: "nat \<Rightarrow> nat" where
  "ffs x = (if x = 0 then 0 else if odd x then 1 else ffs (x div 2) + 1)"
  by pat_completeness auto
termination
  by (relation "measure (\<lambda>x. x)") auto

definition g_any :: "bool list \<Rightarrow> bool" where
  "g_any ps = (ballot ps \<noteq> 0)"

section \<open>Cooperative insert\<close>

datatype insert_result = CONTINUE | SUCCESS | DUPLICATE

text \<open>
  \<^verbatim>\<open>device_mutable_view::insert(g, insert_pair, hash, key_equal)\<close> as a machine that
  performs one memory operation of the group in each step, so that operations of other
  groups can take place between two steps. The wide loads of the lanes of a group, issued
  in lockstep, count as one operation. The control points are:
  \<^item> \<open>Load\<close>: the top of the loop body, before the wide loads and the ballot;
  \<^item> \<open>Key_CAS src loc\<close>: lane \<open>src\<close> is about to compare-and-swap the key of slot \<open>loc\<close>;
  \<^item> \<open>Value_CAS src loc key_success\<close>: it is about to compare-and-swap the value;
  \<^item> \<open>Value_Loop src loc\<close>: it is inside \<^verbatim>\<open>while (not value_success)\<close>;
  \<^item> \<open>Value_Store src loc\<close>: it is about to store the empty value sentinel;
  \<^item> \<open>Vote src status\<close>: lane \<open>src\<close> has left the claim with \<open>status\<close>, the group is at
    \<^verbatim>\<open>g.any(status == insert_result::SUCCESS)\<close>;
  \<^item> \<open>Returned\<close>: the insert has returned;
  \<^item> \<open>Fault\<close>: an access outside the slot array or a remainder by zero.
\<close>

datatype pc =
    Load
  | Key_CAS nat nat
  | Value_CAS nat nat bool
  | Value_Loop nat nat
  | Value_Store nat nat
  | Vote nat insert_result
  | Returned
  | Fault

record cg_insert_state =
  view :: device_view_base
  insert_pair :: slot
  pc :: pc
  current_slot :: "nat list"

text \<open>
  The start of the insert: every lane of the group evaluates
  \<^verbatim>\<open>initial_slot(g, insert_pair.first, hash)\<close>.
\<close>

definition cg_insert_init ::
  "device_view_base \<Rightarrow> nat \<Rightarrow> (key_type \<Rightarrow> nat) \<Rightarrow> slot \<Rightarrow> cg_insert_state option" where
  "cg_insert_init v cg_size hash p =
     (case those (map (\<lambda>r. cg_initial_slot v cg_size r hash (fst p)) [0..<cg_size]) of
        None \<Rightarrow> None
      | Some [] \<Rightarrow> None
      | Some ((v', s) # rest) \<Rightarrow>
          Some \<lparr>view = v', insert_pair = p, pc = Load, current_slot = s # map snd rest\<rparr>)"

text \<open>
  The lanes other than \<open>src_lane\<close> keep the status \<open>CONTINUE\<close> they were initialised with.
\<close>

definition vote :: "cg_insert_state \<Rightarrow> nat \<Rightarrow> insert_result \<Rightarrow> cg_insert_state" where
  "vote st src_lane status =
     (let statuses = (replicate (length (current_slot st)) CONTINUE)[src_lane := status]
      in if g_any (map (\<lambda>s. s = SUCCESS) statuses) then st\<lparr>pc := Returned\<rparr>
         else st\<lparr>pc := Load\<rparr>)"

definition load_window :: "cg_insert_state \<Rightarrow> slots \<Rightarrow> cg_insert_state" where
  "load_window st m =
     (case those (map (window_load m) (current_slot st)) of
        None \<Rightarrow> st\<lparr>pc := Fault\<rparr>
      | Some arr \<Rightarrow>
          let first_slot_is_empty = map (\<lambda>a. fst (fst a) = empty_key_sentinel (view st)) arr;
              second_slot_is_empty = map (\<lambda>a. fst (snd a) = empty_key_sentinel (view st)) arr;
              window_contains_empty =
                ballot (map2 (\<or>) first_slot_is_empty second_slot_is_empty)
          in if window_contains_empty \<noteq> 0 then
               let src_lane = ffs window_contains_empty - 1;
                   insert_location =
                     current_slot st ! src_lane + (if first_slot_is_empty ! src_lane then 0 else 1)
               in st\<lparr>pc := Key_CAS src_lane insert_location\<rparr>
             else
               (case those (map (cg_next_slot (view st)) (current_slot st)) of
                  None \<Rightarrow> st\<lparr>pc := Fault\<rparr>
                | Some next \<Rightarrow> st\<lparr>current_slot := next\<rparr>))"

definition insert_step :: "cg_insert_state \<Rightarrow> slots \<Rightarrow> cg_insert_state \<times> slots" where
  "insert_step st m =
     (case pc st of
        Load \<Rightarrow> (load_window st m, m)
      | Key_CAS src loc \<Rightarrow>
          (case key_compare_exchange loc (empty_key_sentinel (view st)) (fst (insert_pair st)) m of
             None \<Rightarrow> (st\<lparr>pc := Fault\<rparr>, m)
           | Some (key_success, m') \<Rightarrow> (st\<lparr>pc := Value_CAS src loc key_success\<rparr>, m'))
      | Value_CAS src loc key_success \<Rightarrow>
          (case value_compare_exchange loc (empty_value_sentinel (view st))
                  (snd (insert_pair st)) m of
             None \<Rightarrow> (st\<lparr>pc := Fault\<rparr>, m)
           | Some (value_success, m') \<Rightarrow>
               if key_success then
                 (if value_success then (st\<lparr>pc := Vote src SUCCESS\<rparr>, m')
                  else (st\<lparr>pc := Value_Loop src loc\<rparr>, m'))
               else if value_success then (st\<lparr>pc := Value_Store src loc\<rparr>, m')
               else (st\<lparr>pc := Vote src CONTINUE\<rparr>, m'))
      | Value_Loop src loc \<Rightarrow>
          (case value_compare_exchange loc (empty_value_sentinel (view st))
                  (snd (insert_pair st)) m of
             None \<Rightarrow> (st\<lparr>pc := Fault\<rparr>, m)
           | Some (value_success, m') \<Rightarrow>
               if value_success then (st\<lparr>pc := Vote src SUCCESS\<rparr>, m')
               else (st\<lparr>pc := Value_Loop src loc\<rparr>, m'))
      | Value_Store src loc \<Rightarrow>
          (case value_store loc (empty_value_sentinel (view st)) m of
             None \<Rightarrow> (st\<lparr>pc := Fault\<rparr>, m)
           | Some m' \<Rightarrow> (st\<lparr>pc := Vote src CONTINUE\<rparr>, m'))
      | Vote src status \<Rightarrow> (vote st src status, m)
      | Returned \<Rightarrow> (st, m)
      | Fault \<Rightarrow> (st, m))"

section \<open>Groups inserting concurrently\<close>

text \<open>
  The state of a bulk insert: the slot storage and the groups at work on it. A group that
  has returned from an insert takes its next pair (\<open>Start\<close>); a group inside an insert
  performs its next step (\<open>Step\<close>). A sequence of events is one interleaving of the groups.
  Pairs that hold a sentinel are not inserted (the source leaves that undefined).
\<close>

record bulk_state =
  storage :: slots
  groups :: "cg_insert_state list"

datatype event = Start nat slot | Step nat

definition bulk_event ::
  "device_view_base \<Rightarrow> nat \<Rightarrow> (key_type \<Rightarrow> nat) \<Rightarrow> event \<Rightarrow> bulk_state \<Rightarrow> bulk_state" where
  "bulk_event v cg_size hash e s =
     (case e of
        Start i p \<Rightarrow>
          if i < length (groups s) \<and> pc (groups s ! i) = Returned
             \<and> fst p \<noteq> empty_key_sentinel v \<and> snd p \<noteq> empty_value_sentinel v
          then (case cg_insert_init v cg_size hash p of
                  None \<Rightarrow> s\<lparr>groups := (groups s)[i := (groups s ! i)\<lparr>pc := Fault\<rparr>]\<rparr>
                | Some st \<Rightarrow> s\<lparr>groups := (groups s)[i := st]\<rparr>)
          else s
      | Step i \<Rightarrow>
          if i < length (groups s)
          then (let (st, m) = insert_step (groups s ! i) (storage s)
                in \<lparr>storage = m, groups = (groups s)[i := st]\<rparr>)
          else s)"

fun bulk_run ::
  "device_view_base \<Rightarrow> nat \<Rightarrow> (key_type \<Rightarrow> nat) \<Rightarrow> event list \<Rightarrow> bulk_state \<Rightarrow> bulk_state" where
  "bulk_run v cg_size hash [] s = s"
| "bulk_run v cg_size hash (e # es) s = bulk_run v cg_size hash es (bulk_event v cg_size hash e s)"

text \<open>
  The storage after construction holds the sentinel pair in every slot, and no group has
  begun an insert.
\<close>

definition bulk_init :: "device_view_base \<Rightarrow> nat \<Rightarrow> bulk_state" where
  "bulk_init v n =
     \<lparr>storage = replicate (capacity v) (empty_key_sentinel v, empty_value_sentinel v),
      groups = replicate n \<lparr>view = v,
        insert_pair = (empty_key_sentinel v, empty_value_sentinel v),
        pc = Returned, current_slot = []\<rparr>\<rparr>"

section \<open>Auxiliary notions for the statements\<close>



section \<open>Slots in flight and published slots\<close>

text \<open>
  A group is \<open>winning\<close> slot \<open>l\<close> between its successful key exchange on \<open>l\<close> and its
  successful value exchange, and \<open>restoring\<close> slot \<open>l\<close> between a successful value exchange
  that followed a failed key exchange and the store of the sentinel. A slot is \<open>published\<close>
  when neither of its fields holds a sentinel and no group is winning or restoring it.
\<close>

definition winning :: "pc \<Rightarrow> nat \<Rightarrow> bool" where
  "winning p l = (case p of Value_CAS src loc key_success \<Rightarrow> key_success \<and> loc = l
     | Value_Loop src loc \<Rightarrow> loc = l | _ \<Rightarrow> False)"

definition restoring :: "pc \<Rightarrow> nat \<Rightarrow> bool" where
  "restoring p l = (case p of Value_Store src loc \<Rightarrow> loc = l | _ \<Rightarrow> False)"

definition published :: "device_view_base \<Rightarrow> bulk_state \<Rightarrow> nat \<Rightarrow> bool" where
  "published v s l =
     (l < length (storage s) \<and> fst (storage s ! l) \<noteq> empty_key_sentinel v \<and>
      snd (storage s ! l) \<noteq> empty_value_sentinel v \<and>
      (\<forall>st\<in>set (groups s). \<not> winning (pc st) l \<and> \<not> restoring (pc st) l))"

text \<open>
  \<open>owns P f gs m\<close>: whenever a group of \<open>gs\<close> is at a control point \<open>P\<close> for slot \<open>l\<close>, the
  slot lies in the storage \<open>m\<close>, its field \<open>f\<close> is the one of the pair of that group, and no
  other group is at such a control point for \<open>l\<close>.
\<close>

definition owns ::
  "(pc \<Rightarrow> nat \<Rightarrow> bool) \<Rightarrow> (slot \<Rightarrow> 32 word) \<Rightarrow> cg_insert_state list \<Rightarrow> slots \<Rightarrow> bool" where
  "owns P f gs m =
     (\<forall>i<length gs. \<forall>l. P (pc (gs ! i)) l \<longrightarrow>
        l < length m \<and> f (m ! l) = f (insert_pair (gs ! i)) \<and>
        (\<forall>j<length gs. P (pc (gs ! j)) l \<longrightarrow> j = i))"

text \<open>
  The invariant of the bulk insert: every group works with the sentinels of the map and,
  while inside an insert, on a pair free of sentinels; a slot that a group is winning holds
  the key of that group and no other group is winning it; a slot that a group is restoring
  holds the value of that group and no other group is restoring it.
\<close>

definition bulk_inv :: "device_view_base \<Rightarrow> bulk_state \<Rightarrow> bool" where
  "bulk_inv v s =
     ((\<forall>st\<in>set (groups s).
         empty_key_sentinel (view st) = empty_key_sentinel v \<and>
         empty_value_sentinel (view st) = empty_value_sentinel v \<and>
         (pc st = Returned \<or> pc st = Fault \<or>
          (fst (insert_pair st) \<noteq> empty_key_sentinel v \<and>
           snd (insert_pair st) \<noteq> empty_value_sentinel v))) \<and>
      owns winning fst (groups s) (storage s) \<and>
      owns restoring snd (groups s) (storage s))"

text \<open>
  Every value field that does not hold the sentinel is accounted for: either a group is
  restoring the slot, or the slot has a key and no group is winning it any more.
\<close>

definition value_accounted :: "device_view_base \<Rightarrow> bulk_state \<Rightarrow> bool" where
  "value_accounted v s =
     (\<forall>l<length (storage s). snd (storage s ! l) \<noteq> empty_value_sentinel v \<longrightarrow>
        (\<exists>j<length (groups s). restoring (pc (groups s ! j)) l) \<or>
        (fst (storage s ! l) \<noteq> empty_key_sentinel v \<and>
         (\<forall>j<length (groups s). \<not> winning (pc (groups s ! j)) l)))"

section \<open>The iterator of \<open>find_all\<close>\<close>

text \<open>
  \<^verbatim>\<open>device_view::FancyIterator\<close>. Its fields \<^verbatim>\<open>current_\<close>, \<^verbatim>\<open>begin_\<close> and \<^verbatim>\<open>end_\<close> are
  pointers into the slot array and are modelled by indices; the constructor takes
  \<^verbatim>\<open>begin_\<close>, \<^verbatim>\<open>end_\<close> and the sentinel from the view.
\<close>

record FancyIterator =
  it_current :: nat
  it_key :: key_type
  it_begin :: nat
  it_end :: nat
  it_empty_key_sentinel :: key_type

definition make_FancyIterator :: "nat \<Rightarrow> key_type \<Rightarrow> device_view_base \<Rightarrow> FancyIterator" where
  "make_FancyIterator current k v =
     \<lparr>it_current = current, it_key = k, it_begin = 0, it_end = capacity v,
      it_empty_key_sentinel = empty_key_sentinel v\<rparr>"

text \<open>\<^verbatim>\<open>FancyIterator::next_slot(it)\<close>\<close>

definition it_next_slot :: "FancyIterator \<Rightarrow> nat \<Rightarrow> nat" where
  "it_next_slot it p = (if p + 1 < it_end it then p + 1 else it_begin it)"

text \<open>
  The loop of \<^verbatim>\<open>operator++\<close>. It need not terminate, so it is a partial function: \<open>None\<close>
  is a loop that runs forever, \<open>Some (Inl ())\<close> is a read outside the slot storage, and
  \<open>Some (Inr it)\<close> is the iterator on return.
\<close>

partial_function (option) advance_loop :: "slots \<Rightarrow> FancyIterator \<Rightarrow> (unit + FancyIterator) option" where
  "advance_loop m it =
     (if length m \<le> it_current it then Some (Inl ())
      else if fst (m ! it_current it) \<noteq> it_key it then
        (if fst (m ! it_current it) = it_empty_key_sentinel it
         then Some (Inr (it\<lparr>it_current := it_end it\<rparr>))
         else advance_loop m (it\<lparr>it_current := it_next_slot it (it_current it)\<rparr>))
      else Some (Inr it))"

text \<open>\<^verbatim>\<open>FancyIterator::operator++\<close>\<close>

definition increment :: "slots \<Rightarrow> FancyIterator \<Rightarrow> (unit + FancyIterator) option" where
  "increment m it = advance_loop m (it\<lparr>it_current := it_next_slot it (it_current it)\<rparr>)"


text \<open>
  \<^verbatim>\<open>operator++\<close> applied \<open>n\<close> times in a row to the same iterator. An application that
  does not return, or that reads outside the slot storage, ends the row with that result.
\<close>

fun increments :: "slots \<Rightarrow> nat \<Rightarrow> FancyIterator \<Rightarrow> (unit + FancyIterator) option" where
  "increments m 0 it = Some (Inr it)"
| "increments m (Suc n) it =
     (case increment m it of
        None \<Rightarrow> None
      | Some (Inl e) \<Rightarrow> Some (Inl e)
      | Some (Inr it') \<Rightarrow> increments m n it')"
section \<open>Identity hash\<close>

text \<open>
  A key is handed to \<^verbatim>\<open>compute_hash\<close> as the bytes of its object representation, lowest
  address first, together with their number. \<open>to_bytes n x\<close> are the \<open>n\<close> bytes of the
  unsigned value \<open>x\<close> and \<open>of_bytes bs\<close> is the unsigned value of the bytes \<open>bs\<close>, both
  little-endian as on the devices and hosts the library runs on.
\<close>

type_synonym byte = "8 word"

definition to_bytes :: "nat \<Rightarrow> nat \<Rightarrow> byte list" where
  "to_bytes n x = map (\<lambda>i. of_nat (x div 256 ^ i mod 256)) [0..<n]"

fun of_bytes :: "byte list \<Rightarrow> nat" where
  "of_bytes [] = 0"
| "of_bytes (b # bs) = unat b + 256 * of_bytes bs"

text \<open>
  Modelled from the spec: \<^verbatim>\<open>load_chunk<T>(bytes, index)\<close> is declared in
  \<^verbatim>\<open>hash_functions/utils.cuh\<close>, which is not among the sources. It extracts \<open>width\<close> bytes of
  the raw bit pattern as one unsigned value. Whether \<open>index\<close> counts bytes or chunks is left
  open: the read starts at byte \<open>index * stride\<close> for a parameter \<open>stride\<close>. A read past the
  last byte of the key is \<open>None\<close>.
\<close>

definition load_chunk :: "nat \<Rightarrow> nat \<Rightarrow> byte list \<Rightarrow> nat \<Rightarrow> nat option" where
  "load_chunk stride width bytes index =
     (if index * stride + width \<le> length bytes
      then Some (of_bytes (take width (drop (index * stride) bytes)))
      else None)"

text \<open>
  \<^verbatim>\<open>IdentityHash_32::compute_hash(bytes, size)\<close>, with \<open>sz\<close> for \<^verbatim>\<open>size\<close>. \<^verbatim>\<open>sizeof(std::byte)\<close> is one; \<^verbatim>\<open>shift\<close> is a
  \<^verbatim>\<open>uint8_t\<close>; the mask is first the 64-bit value \<^verbatim>\<open>1ull << shift / 2\<close> stored in a
  \<^verbatim>\<open>uint32_t\<close> and then shifted in 32 bits. Reading \<^verbatim>\<open>bytes[0]\<close> of a key without bytes is
  \<open>None\<close>.
\<close>

definition IdentityHash_32_compute_hash ::
  "nat \<Rightarrow> 32 word \<Rightarrow> byte list \<Rightarrow> nat \<Rightarrow> 32 word option" where
  "IdentityHash_32_compute_hash stride seed bytes sz =
     (if 4 \<le> sz then
        (let offset = sz - 4
         in case load_chunk stride 4 bytes offset of
              None \<Rightarrow> None
            | Some h1 \<Rightarrow> Some (of_nat h1 XOR seed))
      else
        (let shift = (sz * 1) mod 256;
             mask = (ucast (push_bit (shift div 2) (1 :: 64 word)) :: 32 word);
             mask = push_bit (shift div 2 + shift mod 2) mask
         in case bytes of
              [] \<Rightarrow> None
            | b # _ \<Rightarrow> Some ((ucast b AND mask) XOR seed)))"

text \<open>
  \<^verbatim>\<open>IdentityHash_64::compute_hash(bytes, size)\<close>: the chunk is read at index 0, and
  \<^verbatim>\<open>shift\<close> is \<^verbatim>\<open>size * sizeof(std::byte) - 1\<close> stored in a \<^verbatim>\<open>uint8_t\<close>.
\<close>

definition IdentityHash_64_compute_hash ::
  "nat \<Rightarrow> 64 word \<Rightarrow> byte list \<Rightarrow> nat \<Rightarrow> 64 word option" where
  "IdentityHash_64_compute_hash stride seed bytes sz =
     (if 8 \<le> sz then
        (case load_chunk stride 8 bytes 0 of
           None \<Rightarrow> None
         | Some h1 \<Rightarrow> Some (of_nat h1 XOR seed))
      else
        (let shift = (sz * 1 + 256 - 1) mod 256;
             mask = push_bit (shift div 2) (1 :: 64 word);
             mask = push_bit (shift div 2 + shift mod 2) mask
         in case bytes of
              [] \<Rightarrow> None
            | b # _ \<Rightarrow> Some ((ucast b AND mask) XOR seed)))"

text \<open>
  \<^verbatim>\<open>operator()(key)\<close>: both branches of the \<^verbatim>\<open>if constexpr\<close> pass the bytes of the key and
  \<^verbatim>\<open>sizeof(Key)\<close>.
\<close>

definition IdentityHash_32 :: "nat \<Rightarrow> 32 word \<Rightarrow> byte list \<Rightarrow> 32 word option" where
  "IdentityHash_32 stride seed key_bytes =
     IdentityHash_32_compute_hash stride seed key_bytes (length key_bytes)"

definition IdentityHash_64 :: "nat \<Rightarrow> 64 word \<Rightarrow> byte list \<Rightarrow> 64 word option" where
  "IdentityHash_64 stride seed key_bytes =
     IdentityHash_64_compute_hash stride seed key_bytes (length key_bytes)"

section \<open>Cooperative lookup and host bulk find\<close>





section \<open>Placement along the probe sequence\<close>

text \<open>
  \<open>cg_step v s\<close> is the slot that \<^verbatim>\<open>next_slot(g, s)\<close> returns when the capacity is not zero,
  and \<open>cg_window v cur j\<close> the window of a group \<open>j\<close> group steps after the window \<open>cur\<close>.
  A window is full when none of its slots holds the empty key sentinel.
\<close>

definition cg_step :: "device_view_base \<Rightarrow> nat \<Rightarrow> nat" where
  "cg_step v s = size_t (uint32_t s + step_size v) mod capacity v"

definition cg_window :: "device_view_base \<Rightarrow> nat list \<Rightarrow> nat \<Rightarrow> nat list" where
  "cg_window v cur j = map (cg_step v ^^ j) cur"






section \<open>The probe sequence stays inside the slot array\<close>

lemma size_t_id: "x < 2 ^ 64 \<Longrightarrow> size_t x = x"
  by (simp add: size_t_def)

lemma even_size_t: "even (size_t x) = even x"
  unfolding size_t_def by (rule dvd_mod_iff) simp

lemma even_uint32_t: "even (uint32_t x) = even x"
  unfolding uint32_t_def by (rule dvd_mod_iff) simp

lemma cg_modulus:
  fixes w :: nat
  assumes "2 \<le> w" "w < 2 ^ 64"
  shows "size_t (w + 2 ^ 64 - 1) = w - 1"
proof -
  have "w + 2 ^ 64 - 1 = (w - 1) + 2 ^ 64" using assms by simp
  then have "size_t (w + 2 ^ 64 - 1) = (w - 1) mod 2 ^ 64"
    unfolding size_t_def by (simp only: mod_add_self2)
  also have "\<dots> = w - 1" using assms by simp
  finally show ?thesis .
qed

lemma window_index_bound:
  fixes G r w x :: nat
  assumes "r < G" "x < w"
  shows "x * (G * 2) + r * 2 + 2 \<le> w * (G * 2)"
proof -
  have "x + 1 \<le> w" using assms by simp
  then have "(x + 1) * (G * 2) \<le> w * (G * 2)" by (rule mult_le_mono1)
  moreover have "r * 2 + 2 \<le> G * 2" using assms by simp
  ultimately show ?thesis by (simp add: algebra_simps)
qed


lemma size_t_le: "x \<le> c \<Longrightarrow> c < 2 ^ 64 \<Longrightarrow> size_t x = x"
  by (simp add: size_t_def)

lemma cg_initial_slot_value:
  assumes G: "0 < G" and r: "r < G" and w: "2 \<le> capacity v div (G * 2)"
    and c: "capacity v < 2 ^ 64"
  shows "cg_initial_slot v G r hash k =
     Some (v\<lparr>step_size := (size_t (hash (k + 1)) mod (capacity v div (G * 2) - 1) + 1) * (G * 2)\<rparr>,
           size_t (hash k) mod (capacity v div (G * 2)) * (G * 2) + r * 2)"
proof -
  define w where "w = capacity v div (G * 2)"
  define a where "a = size_t (hash (k + 1)) mod (w - 1)"
  define x where "x = size_t (hash k) mod w"
  have w2: "2 \<le> w" using w by (simp add: w_def)
  have wc: "w * (G * 2) \<le> capacity v" by (simp add: w_def)
  have wlt: "w < 2 ^ 64" unfolding w_def using c by (meson div_le_dividend le_less_trans)
  have m: "size_t (w + 2 ^ 64 - 1) = w - 1" using w2 wlt by (rule cg_modulus)
  have "0 < w - 1" using w2 by simp
  then have "a < w - 1" unfolding a_def by (rule mod_less_divisor)
  then have a: "a + 1 < w" by simp
  have x: "x < w" using w2 by (simp add: x_def)
  have xb: "x * (G * 2) + r * 2 + 2 \<le> w * (G * 2)" using r x by (rule window_index_bound)
  have ab: "(a + 1) * (G * 2) \<le> w * (G * 2)" using a by (intro mult_le_mono1) simp
  have s1: "size_t (a + 1) = a + 1" using a wlt by (intro size_t_id) simp
  have "(a + 1) * G \<le> (a + 1) * (G * 2)" by simp
  then have "(a + 1) * G \<le> capacity v" using ab wc by linarith
  then have s2: "size_t ((a + 1) * G) = (a + 1) * G" using c by (rule size_t_le)
  have "(a + 1) * G * 2 \<le> capacity v" using ab wc by (simp add: mult.assoc)
  then have s3: "size_t ((a + 1) * G * 2) = (a + 1) * G * 2" using c by (rule size_t_le)
  have "x * G \<le> x * (G * 2)" by simp
  then have "x * G \<le> capacity v" using xb wc by linarith
  then have t1: "size_t (x * G) = x * G" using c by (rule size_t_le)
  have "x * G * 2 \<le> capacity v" using xb wc by (simp add: mult.assoc)
  then have t2: "size_t (x * G * 2) = x * G * 2" using c by (rule size_t_le)
  have "x * G * 2 + r * 2 \<le> capacity v" using xb wc by (simp add: mult.assoc)
  then have t3: "size_t (x * G * 2 + r * 2) = x * G * 2 + r * 2" using c by (rule size_t_le)
  have nz: "G * 2 \<noteq> 0" "w - 1 \<noteq> 0" "w \<noteq> 0" using G w2 by simp_all
  have "cg_initial_slot v G r hash k =
      Some (v\<lparr>step_size := (a + 1) * G * 2\<rparr>, x * G * 2 + r * 2)"
    unfolding cg_initial_slot_def Let_def w_def [symmetric] m a_def [symmetric] x_def [symmetric]
      s1 s2 s3 t1 t2 t3
    using nz by simp
  then show ?thesis
    by (simp only: w_def a_def x_def mult.assoc)
qed


lemma cg_next_slot_even:
  assumes s: "even s" and st: "even (step_size v)" and c: "even (capacity v)" and c0: "0 < capacity v"
  shows "\<exists>s'. cg_next_slot v s = Some s' \<and> even s' \<and> s' + 2 \<le> capacity v"
proof -
  define s' where "s' = size_t (uint32_t s + step_size v) mod capacity v"
  have eq: "cg_next_slot v s = Some s'"
    using c0 by (simp add: cg_next_slot_def s'_def)
  have "even (size_t (uint32_t s + step_size v))"
    using s st by (simp add: even_size_t even_uint32_t)
  then have e: "even s'"
    unfolding s'_def using c by (simp add: dvd_mod_iff)
  have lt: "s' < capacity v"
    unfolding s'_def using c0 by simp
  have "odd (s' + 1)" using e by simp
  with c have "s' + 1 \<noteq> capacity v" by metis
  then have "s' + 2 \<le> capacity v"
    using lt by simp
  then show ?thesis using eq e by simp
qed

lemma cg_probe_even:
  assumes st: "even (step_size v)" and c: "even (capacity v)" and c0: "0 < capacity v"
  shows "even s \<Longrightarrow> s + 2 \<le> capacity v
    \<Longrightarrow> \<exists>s'. cg_probe v s n = Some s' \<and> even s' \<and> s' + 2 \<le> capacity v"
proof (induction n arbitrary: s)
  case 0
  then show ?case by simp
next
  case (Suc n)
  from cg_next_slot_even [OF Suc.prems(1) st c c0]
  obtain t where t: "cg_next_slot v s = Some t" "even t" "t + 2 \<le> capacity v" by blast
  from Suc.IH [OF t(2) t(3)] t(1) show ?case by simp
qed

text \<open>
  Claim C10. When the capacity is an exact multiple of \<open>2 * G\<close> and holds at least two
  windows, the modulus of the step size is not zero, the cooperative \<open>initial_slot\<close> is
  defined, and the slot index a lane of rank \<open>r < G\<close> holds after any number of group
  steps is even and at most \<open>capacity - 2\<close>: both slots of the lane's wide load lie inside
  the slot array.
\<close>

theorem cg_probe_in_bounds:
  assumes G: "0 < G" and r: "r < G" and d: "capacity v mod (G * 2) = 0"
    and w: "2 \<le> capacity v div (G * 2)" and c: "capacity v < 2 ^ 64"
  shows "size_t (capacity v div (G * 2) + 2 ^ 64 - 1) \<noteq> 0 \<and>
    (\<exists>v' s0. cg_initial_slot v G r hash k = Some (v', s0) \<and>
       (\<forall>n. \<exists>s. cg_probe v' s0 n = Some s \<and> even s \<and> s + 2 \<le> capacity v))"
proof -
  define w where "w = capacity v div (G * 2)"
  define v' where "v' = v\<lparr>step_size := (size_t (hash (k + 1)) mod (w - 1) + 1) * (G * 2)\<rparr>"
  define s0 where "s0 = size_t (hash k) mod w * (G * 2) + r * 2"
  have w2: "2 \<le> w" using w by (simp add: w_def)
  have wlt: "w < 2 ^ 64" unfolding w_def using c by (meson div_le_dividend le_less_trans)
  have "size_t (w + 2 ^ 64 - 1) = w - 1" using w2 wlt by (rule cg_modulus)
  then have m: "size_t (w + 2 ^ 64 - 1) \<noteq> 0" using w2 by simp
  have init: "cg_initial_slot v G r hash k = Some (v', s0)"
    unfolding v'_def s0_def w_def using G r w c by (rule cg_initial_slot_value)
  have cap: "capacity v = w * (G * 2)"
    unfolding w_def using d by (metis add.right_neutral div_mult_mod_eq)
  have c0: "0 < capacity v'" using w2 G by (simp add: v'_def cap)
  have ce: "even (capacity v')" by (simp add: v'_def cap)
  have st: "even (step_size v')" by (simp add: v'_def)
  have "size_t (hash k) mod w < w" using w2 by simp
  with r have "s0 + 2 \<le> w * (G * 2)" unfolding s0_def by (rule window_index_bound)
  then have b0: "s0 + 2 \<le> capacity v'" by (simp add: v'_def cap)
  have e0: "even s0" by (simp add: s0_def)
  have "\<exists>s. cg_probe v' s0 n = Some s \<and> even s \<and> s + 2 \<le> capacity v" for n
    using cg_probe_even [OF st ce c0 e0 b0, of n] by (simp add: v'_def)
  with m init show ?thesis unfolding w_def by blast
qed

theorem cg_probe_in_bounds_witness:
  "size_t (capacity \<lparr>capacity = 16, empty_key_sentinel = - 1, empty_value_sentinel = - 1,
       step_size = 0\<rparr> div (2 * 2) + 2 ^ 64 - 1) \<noteq> 0 \<and>
   (\<exists>v' s0. cg_initial_slot \<lparr>capacity = 16, empty_key_sentinel = - 1,
        empty_value_sentinel = - 1, step_size = 0\<rparr> 2 1 unat 5 = Some (v', s0) \<and>
      (\<forall>n. \<exists>s. cg_probe v' s0 n = Some s \<and> even s \<and> s + 2 \<le> (16::nat)))"
  using cg_probe_in_bounds [of 2 1 "\<lparr>capacity = 16, empty_key_sentinel = - 1,
       empty_value_sentinel = - 1, step_size = 0\<rparr>" unat 5]
  by simp

section \<open>The cooperative probe sequence\<close>

lemma cg_step_size_le:
  fixes G c :: nat
  assumes w: "2 \<le> c div (G * 2)"
  shows "(h mod (c div (G * 2) - 1) + 1) * (G * 2) \<le> c"
proof -
  have "0 < c div (G * 2) - 1" using w by simp
  then have "h mod (c div (G * 2) - 1) < c div (G * 2) - 1" by (rule mod_less_divisor)
  then have "h mod (c div (G * 2) - 1) + 1 \<le> c div (G * 2)" by simp
  then have "(h mod (c div (G * 2) - 1) + 1) * (G * 2) \<le> c div (G * 2) * (G * 2)"
    by (rule mult_le_mono1)
  also have "\<dots> \<le> c" by simp
  finally show ?thesis .
qed

text \<open>
  Claim C1 gives the step size as \<open>(hash (k + 1) mod (capacity / 2G - 1)) * 2G\<close>. The code
  adds one to the remainder before scaling, so that the step is never zero. With capacity 8,
  one lane, the identity hash and key 0 the step is 4, where the formula of the claim gives 2.
\<close>

theorem cg_step_size_counterexample:
  "map_option (step_size \<circ> fst)
     (cg_initial_slot \<lparr>capacity = 8, empty_key_sentinel = - 1, empty_value_sentinel = - 1,
        step_size = 0\<rparr> 1 0 unat 0)
   \<noteq> Some ((unat (0 + 1 :: 32 word) mod (8 div (1 * 2) - 1)) * (1 * 2))"
  by (simp add: cg_initial_slot_def size_t_def)

text \<open>
  Claim C1, amended. For a capacity of at most \<open>2 ^ 32\<close> slots holding at least two windows,
  lane \<open>r\<close> of a group of \<open>G\<close> lanes starts at slot index
  \<open>(hash k mod (capacity / 2G)) * 2G + 2r\<close>, the step size is
  \<open>(hash (k + 1) mod (capacity / 2G - 1) + 1) * 2G\<close>, and the group step takes a slot index
  \<open>s\<close> to \<open>(s + step) mod capacity\<close>.
\<close>

theorem cg_probe_sequence:
  assumes G: "0 < G" and r: "r < G" and w: "2 \<le> capacity v div (G * 2)"
    and c: "capacity v \<le> 2 ^ 32"
  shows "\<exists>v'. cg_initial_slot v G r hash k =
        Some (v', size_t (hash k) mod (capacity v div (G * 2)) * (G * 2) + r * 2) \<and>
      step_size v' = (size_t (hash (k + 1)) mod (capacity v div (G * 2) - 1) + 1) * (G * 2) \<and>
      (\<forall>s<capacity v. cg_next_slot v' s = Some ((s + step_size v') mod capacity v))"
proof -
  define st where "st = (size_t (hash (k + 1)) mod (capacity v div (G * 2) - 1) + 1) * (G * 2)"
  define v' where "v' = v\<lparr>step_size := st\<rparr>"
  have c64: "capacity v < 2 ^ 64" using c by (rule le_less_trans) simp
  have init: "cg_initial_slot v G r hash k =
      Some (v', size_t (hash k) mod (capacity v div (G * 2)) * (G * 2) + r * 2)"
    unfolding v'_def st_def using G r w c64 by (rule cg_initial_slot_value)
  have stc: "st \<le> capacity v" unfolding st_def using w by (rule cg_step_size_le)
  have c0: "capacity v \<noteq> 0" using w by (metis div_0 not_numeral_le_zero)
  have "cg_next_slot v' s = Some ((s + step_size v') mod capacity v)" if s: "s < capacity v" for s
  proof -
    have s32: "s < 2 ^ 32" using s c by simp
    have "s + st < 2 ^ 32 + 2 ^ 32" using s32 stc c by linarith
    also have "\<dots> < (2::nat) ^ 64" by simp
    finally have "size_t (s + st) = s + st" by (rule size_t_id)
    then show ?thesis
      using c0 s32 by (simp add: cg_next_slot_def uint32_t_def v'_def)
  qed
  with init show ?thesis by (auto simp: v'_def st_def)
qed

theorem cg_probe_sequence_witness:
  "\<exists>v'. cg_initial_slot \<lparr>capacity = 16, empty_key_sentinel = - 1,
          empty_value_sentinel = - 1, step_size = 0\<rparr> 2 1 unat 5 = Some (v', 6) \<and>
      step_size v' = 4 \<and>
      (\<forall>s<16. cg_next_slot v' s = Some ((s + step_size v') mod 16))"
  using cg_probe_sequence [of 2 1 "\<lparr>capacity = 16, empty_key_sentinel = - 1,
       empty_value_sentinel = - 1, step_size = 0\<rparr>" unat 5]
  by (simp add: size_t_def)

section \<open>Ballot and lowest set bit\<close>

declare ffs.simps [simp del]

lemma ffs_0: "ffs 0 = 0"
  by (simp add: ffs.simps)

lemma ffs_odd: "odd x \<Longrightarrow> ffs x = 1"
  by (subst ffs.simps) (auto elim: oddE)





section \<open>The wide load and the ballot\<close>







section \<open>Which lane claims which slot\<close>






section \<open>The decision of the insert loop\<close>



section \<open>A failed claim\<close>

lemma ffs_1 [simp]: "ffs 1 = 1" "ffs (Suc 0) = 1"
  by (simp_all add: ffs_odd)

lemmas step_defs = insert_step_def load_window_def window_load_def vote_def g_any_def
  key_compare_exchange_def value_compare_exchange_def value_store_def Let_def

text \<open>
  Claim C9 ends: an insert attempt that fails to claim a slot leaves the value field of that
  slot equal to the empty value sentinel. Two groups of one lane, capacity 8, identity hash:
  both load slot 2 while it is empty; the first writes the key 1 and the value 10; the key
  exchange of the second then fails and so does its value exchange, which leaves the value
  field at 10.
\<close>

theorem failed_claim_keeps_value_counterexample:
  "pc (groups (bulk_run \<lparr>capacity = 8, empty_key_sentinel = - 1, empty_value_sentinel = - 1,
         step_size = 0\<rparr> 1 unat
       [Start 0 (1, 10), Start 1 (5, 50), Step 0, Step 1, Step 0, Step 0, Step 1, Step 1]
       (bulk_init \<lparr>capacity = 8, empty_key_sentinel = - 1, empty_value_sentinel = - 1,
         step_size = 0\<rparr> 2)) ! 1) = Vote 0 CONTINUE \<and>
   snd (storage (bulk_run \<lparr>capacity = 8, empty_key_sentinel = - 1, empty_value_sentinel = - 1,
         step_size = 0\<rparr> 1 unat
       [Start 0 (1, 10), Start 1 (5, 50), Step 0, Step 1, Step 0, Step 0, Step 1, Step 1]
       (bulk_init \<lparr>capacity = 8, empty_key_sentinel = - 1, empty_value_sentinel = - 1,
         step_size = 0\<rparr> 2)) ! 2) \<noteq> - 1"
proof -
  let ?v = "\<lparr>capacity = 8, empty_key_sentinel = - 1, empty_value_sentinel = - 1,
         step_size = 0\<rparr> :: device_view_base"
  let ?e = "(- 1, - 1) :: slot"
  let ?idle = "\<lparr>view = ?v, insert_pair = ?e, pc = Returned, current_slot = []\<rparr>"
  let ?a = "\<lambda>p. \<lparr>view = \<lparr>capacity = 8, empty_key_sentinel = - 1, empty_value_sentinel = - 1,
         step_size = 6\<rparr>, insert_pair = (1, 10), pc = p, current_slot = [2]\<rparr>"
  let ?b = "\<lambda>p. \<lparr>view = \<lparr>capacity = 8, empty_key_sentinel = - 1, empty_value_sentinel = - 1,
         step_size = 2\<rparr>, insert_pair = (5, 50), pc = p, current_slot = [2]\<rparr>"
  let ?m0 = "[?e, ?e, ?e, ?e, ?e, ?e, ?e, ?e]"
  let ?m1 = "[?e, ?e, (1, - 1), ?e, ?e, ?e, ?e, ?e]"
  let ?m2 = "[?e, ?e, (1, 10), ?e, ?e, ?e, ?e, ?e]"
  let ?run = "bulk_run ?v 1 unat"
  have ia: "cg_insert_init ?v 1 unat (1, 10) = Some (?a Load)"
    by (simp add: cg_insert_init_def cg_initial_slot_def size_t_def)
  have ib: "cg_insert_init ?v 1 unat (5, 50) = Some (?b Load)"
    by (simp add: cg_insert_init_def cg_initial_slot_def size_t_def)
  have s0: "bulk_init ?v 2 = \<lparr>storage = ?m0, groups = [?idle, ?idle]\<rparr>"
    by (simp add: bulk_init_def numeral_eq_Suc)
  have e1: "bulk_event ?v 1 unat (Start 0 (1, 10)) \<lparr>storage = ?m0, groups = [?idle, ?idle]\<rparr>
      = \<lparr>storage = ?m0, groups = [?a Load, ?idle]\<rparr>"
    by (simp add: bulk_event_def ia [unfolded One_nat_def])
  have e2: "bulk_event ?v 1 unat (Start 1 (5, 50)) \<lparr>storage = ?m0, groups = [?a Load, ?idle]\<rparr>
      = \<lparr>storage = ?m0, groups = [?a Load, ?b Load]\<rparr>"
    by (simp add: bulk_event_def ib [unfolded One_nat_def])
  have e3: "bulk_event ?v 1 unat (Step 0) \<lparr>storage = ?m0, groups = [?a Load, ?b Load]\<rparr>
      = \<lparr>storage = ?m0, groups = [?a (Key_CAS 0 2), ?b Load]\<rparr>"
    by (simp add: bulk_event_def step_defs)
  have e4: "bulk_event ?v 1 unat (Step 1) \<lparr>storage = ?m0, groups = [?a (Key_CAS 0 2), ?b Load]\<rparr>
      = \<lparr>storage = ?m0, groups = [?a (Key_CAS 0 2), ?b (Key_CAS 0 2)]\<rparr>"
    by (simp add: bulk_event_def step_defs)
  have e5: "bulk_event ?v 1 unat (Step 0)
        \<lparr>storage = ?m0, groups = [?a (Key_CAS 0 2), ?b (Key_CAS 0 2)]\<rparr>
      = \<lparr>storage = ?m1, groups = [?a (Value_CAS 0 2 True), ?b (Key_CAS 0 2)]\<rparr>"
    by (simp add: bulk_event_def step_defs)
  have e6: "bulk_event ?v 1 unat (Step 0)
        \<lparr>storage = ?m1, groups = [?a (Value_CAS 0 2 True), ?b (Key_CAS 0 2)]\<rparr>
      = \<lparr>storage = ?m2, groups = [?a (Vote 0 SUCCESS), ?b (Key_CAS 0 2)]\<rparr>"
    by (simp add: bulk_event_def step_defs)
  have e7: "bulk_event ?v 1 unat (Step 1)
        \<lparr>storage = ?m2, groups = [?a (Vote 0 SUCCESS), ?b (Key_CAS 0 2)]\<rparr>
      = \<lparr>storage = ?m2, groups = [?a (Vote 0 SUCCESS), ?b (Value_CAS 0 2 False)]\<rparr>"
    by (simp add: bulk_event_def step_defs)
  have e8: "bulk_event ?v 1 unat (Step 1)
        \<lparr>storage = ?m2, groups = [?a (Vote 0 SUCCESS), ?b (Value_CAS 0 2 False)]\<rparr>
      = \<lparr>storage = ?m2, groups = [?a (Vote 0 SUCCESS), ?b (Vote 0 CONTINUE)]\<rparr>"
    by (simp add: bulk_event_def step_defs)
  have "?run [Start 0 (1, 10), Start 1 (5, 50), Step 0, Step 1, Step 0, Step 0, Step 1, Step 1]
       (bulk_init ?v 2) = \<lparr>storage = ?m2, groups = [?a (Vote 0 SUCCESS), ?b (Vote 0 CONTINUE)]\<rparr>"
    by (simp only: bulk_run.simps s0 e1 e2 e3 e4 e5 e6 e7 e8)
  then show ?thesis by simp
qed

text \<open>
  Claim C9, amended. The key exchange is followed by the value exchange whatever its
  outcome. When the key exchange fails, the attempt leaves the slot as it found it: if the
  value exchange succeeded the lane stores the empty value sentinel back, and if it failed
  (the value field already holds the value of another lane) the storage is not written.
\<close>

theorem failed_claim_restores_value:
  assumes p: "pc st = Key_CAS src loc" and l: "loc < length m"
  shows "insert_step st m =
      (st\<lparr>pc := Value_CAS src loc (fst (m ! loc) = empty_key_sentinel (view st))\<rparr>,
       if fst (m ! loc) = empty_key_sentinel (view st)
       then m[loc := (fst (insert_pair st), snd (m ! loc))] else m) \<and>
    (fst (m ! loc) \<noteq> empty_key_sentinel (view st) \<longrightarrow>
      (if snd (m ! loc) = empty_value_sentinel (view st)
       then insert_step (st\<lparr>pc := Value_CAS src loc False\<rparr>) m =
              (st\<lparr>pc := Value_Store src loc\<rparr>, m[loc := (fst (m ! loc), snd (insert_pair st))]) \<and>
            insert_step (st\<lparr>pc := Value_Store src loc\<rparr>)
                (m[loc := (fst (m ! loc), snd (insert_pair st))]) =
              (st\<lparr>pc := Vote src CONTINUE\<rparr>, m)
       else insert_step (st\<lparr>pc := Value_CAS src loc False\<rparr>) m =
              (st\<lparr>pc := Vote src CONTINUE\<rparr>, m)))"
proof -
  have 1: "insert_step st m =
      (st\<lparr>pc := Value_CAS src loc (fst (m ! loc) = empty_key_sentinel (view st))\<rparr>,
       if fst (m ! loc) = empty_key_sentinel (view st)
       then m[loc := (fst (insert_pair st), snd (m ! loc))] else m)"
    using p l by (simp add: insert_step_def key_compare_exchange_def)
  have 2: "insert_step (st\<lparr>pc := Value_CAS src loc False\<rparr>) m =
      (st\<lparr>pc := Value_Store src loc\<rparr>, m[loc := (fst (m ! loc), snd (insert_pair st))])"
    if "snd (m ! loc) = empty_value_sentinel (view st)"
    using that l by (simp add: insert_step_def value_compare_exchange_def)
  have "m[loc := (fst (m ! loc), snd (insert_pair st)), loc := (fst (m ! loc), snd (m ! loc))] = m"
    by (simp add: list_update_id)
  then have 3: "insert_step (st\<lparr>pc := Value_Store src loc\<rparr>)
      (m[loc := (fst (m ! loc), snd (insert_pair st))]) = (st\<lparr>pc := Vote src CONTINUE\<rparr>, m)"
    if "snd (m ! loc) = empty_value_sentinel (view st)"
    using that l by (simp add: insert_step_def value_store_def)
  have 4: "insert_step (st\<lparr>pc := Value_CAS src loc False\<rparr>) m = (st\<lparr>pc := Vote src CONTINUE\<rparr>, m)"
    if "snd (m ! loc) \<noteq> empty_value_sentinel (view st)"
    using that l by (simp add: insert_step_def value_compare_exchange_def)
  from 1 2 3 4 show ?thesis by simp
qed

theorem failed_claim_restores_value_witness:
  "insert_step
     \<lparr>view = \<lparr>capacity = 8, empty_key_sentinel = - 1, empty_value_sentinel = - 1, step_size = 2\<rparr>,
        insert_pair = (5, 50), pc = Key_CAS 0 2, current_slot = [2]\<rparr>
     [(- 1, - 1), (- 1, - 1), (1, - 1), (- 1, - 1)] =
   (\<lparr>view = \<lparr>capacity = 8, empty_key_sentinel = - 1, empty_value_sentinel = - 1, step_size = 2\<rparr>,
        insert_pair = (5, 50), pc = Value_CAS 0 2 False, current_slot = [2]\<rparr>,
    [(- 1, - 1), (- 1, - 1), (1, - 1), (- 1, - 1)]) \<and>
   insert_step
     \<lparr>view = \<lparr>capacity = 8, empty_key_sentinel = - 1, empty_value_sentinel = - 1, step_size = 2\<rparr>,
        insert_pair = (5, 50), pc = Value_CAS 0 2 False, current_slot = [2]\<rparr>
     [(- 1, - 1), (- 1, - 1), (1, - 1), (- 1, - 1)] =
   (\<lparr>view = \<lparr>capacity = 8, empty_key_sentinel = - 1, empty_value_sentinel = - 1, step_size = 2\<rparr>,
        insert_pair = (5, 50), pc = Value_Store 0 2, current_slot = [2]\<rparr>,
    [(- 1, - 1), (- 1, - 1), (1, 50), (- 1, - 1)]) \<and>
   insert_step
     \<lparr>view = \<lparr>capacity = 8, empty_key_sentinel = - 1, empty_value_sentinel = - 1, step_size = 2\<rparr>,
        insert_pair = (5, 50), pc = Value_Store 0 2, current_slot = [2]\<rparr>
     [(- 1, - 1), (- 1, - 1), (1, 50), (- 1, - 1)] =
   (\<lparr>view = \<lparr>capacity = 8, empty_key_sentinel = - 1, empty_value_sentinel = - 1, step_size = 2\<rparr>,
        insert_pair = (5, 50), pc = Vote 0 CONTINUE, current_slot = [2]\<rparr>,
    [(- 1, - 1), (- 1, - 1), (1, - 1), (- 1, - 1)])"
  using failed_claim_restores_value [of
      "\<lparr>view = \<lparr>capacity = 8, empty_key_sentinel = - 1, empty_value_sentinel = - 1, step_size = 2\<rparr>,
        insert_pair = (5, 50), pc = Key_CAS 0 2, current_slot = [2]\<rparr>" 0 2
      "[(- 1, - 1), (- 1, - 1), (1, - 1), (- 1, - 1)]"]
  by simp

section \<open>The effect of one step on the storage\<close>

lemma load_window_pc:
  "view (load_window st m) = view st \<and> insert_pair (load_window st m) = insert_pair st \<and>
   (pc (load_window st m) = pc st \<or> pc (load_window st m) = Fault \<or>
    (\<exists>src loc. pc (load_window st m) = Key_CAS src loc))"
  by (simp add: load_window_def Let_def split: option.split)

lemma vote_pc:
  "view (vote st src status) = view st \<and> insert_pair (vote st src status) = insert_pair st \<and>
   (pc (vote st src status) = Load \<or> pc (vote st src status) = Returned)"
  by (simp add: vote_def Let_def)

lemma insert_step_frame:
  "view (fst (insert_step st m)) = view st \<and> insert_pair (fst (insert_step st m)) = insert_pair st \<and>
   length (snd (insert_step st m)) = length m \<and>
   (pc st = Returned \<longrightarrow> pc (fst (insert_step st m)) = Returned) \<and>
   (pc st = Fault \<longrightarrow> pc (fst (insert_step st m)) = Fault)"
  by (cases "pc st")
    (auto simp: insert_step_def load_window_pc vote_pc key_compare_exchange_def
      value_compare_exchange_def value_store_def)

lemma insert_step_effect:
  assumes step: "insert_step st m = (st', m')"
  shows
   "(m' = m \<and> (\<forall>l. winning (pc st') l \<longrightarrow> winning (pc st) l) \<and>
       (\<forall>l. restoring (pc st') l \<longrightarrow> restoring (pc st) l) \<and>
       (\<forall>l<length m. \<not> restoring (pc st) l)) \<or>
    (\<exists>l. l < length m \<and> fst (m ! l) = empty_key_sentinel (view st) \<and>
       m' = m[l := (fst (insert_pair st), snd (m ! l))] \<and>
       (\<forall>l'. winning (pc st') l' \<longleftrightarrow> l' = l) \<and> (\<forall>l'. \<not> restoring (pc st') l') \<and>
       (\<forall>l'. \<not> winning (pc st) l') \<and> (\<forall>l'. \<not> restoring (pc st) l')) \<or>
    (\<exists>l. l < length m \<and> winning (pc st) l \<and> snd (m ! l) = empty_value_sentinel (view st) \<and>
       m' = m[l := (fst (m ! l), snd (insert_pair st))] \<and>
       (\<forall>l'. \<not> winning (pc st') l') \<and> (\<forall>l'. \<not> restoring (pc st') l')) \<or>
    (\<exists>l. l < length m \<and> snd (m ! l) = empty_value_sentinel (view st) \<and>
       m' = m[l := (fst (m ! l), snd (insert_pair st))] \<and>
       (\<forall>l'. \<not> winning (pc st') l') \<and> (\<forall>l'. restoring (pc st') l' \<longleftrightarrow> l' = l) \<and>
       (\<forall>l'. \<not> winning (pc st) l') \<and> (\<forall>l'. \<not> restoring (pc st) l')) \<or>
    (\<exists>l. l < length m \<and> restoring (pc st) l \<and>
       m' = m[l := (fst (m ! l), empty_value_sentinel (view st))] \<and>
       (\<forall>l'. \<not> winning (pc st') l') \<and> (\<forall>l'. \<not> restoring (pc st') l'))"
  (is "?quiet \<or> (\<exists>l. ?win l) \<or> (\<exists>l. ?publish l) \<or> (\<exists>l. ?spec l) \<or> (\<exists>l. ?restore l)")
proof (cases "pc st")
  case Load
  with step have "m' = m" "st' = load_window st m" by (auto simp: insert_step_def)
  with Load load_window_pc [of st m] have ?quiet
    by (auto simp: winning_def restoring_def)
  then show ?thesis ..
next
  case (Key_CAS src loc)
  show ?thesis
  proof (cases "loc < length m \<and> fst (m ! loc) = empty_key_sentinel (view st)")
    case True
    with step Key_CAS have "?win loc"
      by (auto simp: insert_step_def key_compare_exchange_def winning_def restoring_def)
    then show ?thesis by blast
  next
    case False
    with step Key_CAS have ?quiet
      by (auto simp: insert_step_def key_compare_exchange_def winning_def restoring_def
          split: if_splits)
    then show ?thesis ..
  qed
next
  case (Value_CAS src loc ks)
  show ?thesis
  proof (cases "loc < length m \<and> snd (m ! loc) = empty_value_sentinel (view st)")
    case True
    show ?thesis
    proof (cases ks)
      case True
      with step Value_CAS \<open>loc < length m \<and> snd (m ! loc) = empty_value_sentinel (view st)\<close>
      have "?publish loc"
        by (auto simp: insert_step_def value_compare_exchange_def winning_def restoring_def)
      then show ?thesis by blast
    next
      case False
      with step Value_CAS \<open>loc < length m \<and> snd (m ! loc) = empty_value_sentinel (view st)\<close>
      have "?spec loc"
        by (auto simp: insert_step_def value_compare_exchange_def winning_def restoring_def)
      then show ?thesis by blast
    qed
  next
    case False
    with step Value_CAS have ?quiet
      by (auto simp: insert_step_def value_compare_exchange_def winning_def restoring_def
          split: if_splits)
    then show ?thesis ..
  qed
next
  case (Value_Loop src loc)
  show ?thesis
  proof (cases "loc < length m \<and> snd (m ! loc) = empty_value_sentinel (view st)")
    case True
    with step Value_Loop have "?publish loc"
      by (auto simp: insert_step_def value_compare_exchange_def winning_def restoring_def)
    then show ?thesis by blast
  next
    case False
    with step Value_Loop have ?quiet
      by (auto simp: insert_step_def value_compare_exchange_def winning_def restoring_def
          split: if_splits)
    then show ?thesis ..
  qed
next
  case (Value_Store src loc)
  show ?thesis
  proof (cases "loc < length m")
    case True
    with step Value_Store have "?restore loc"
      by (auto simp: insert_step_def value_store_def winning_def restoring_def)
    then show ?thesis by blast
  next
    case False
    with step Value_Store have ?quiet
      by (auto simp: insert_step_def value_store_def winning_def restoring_def)
    then show ?thesis ..
  qed
next
  case (Vote src status)
  with step have "m' = m" "st' = vote st src status" by (auto simp: insert_step_def)
  with vote_pc [of st src status] Vote have ?quiet
    by (auto simp: winning_def restoring_def)
  then show ?thesis ..
next
  case Returned
  with step have ?quiet by (auto simp: insert_step_def restoring_def)
  then show ?thesis ..
next
  case Fault
  with step have ?quiet by (auto simp: insert_step_def restoring_def)
  then show ?thesis ..
qed

lemma insert_step_cases [consumes 1, case_names quiet win publish spec restore]:
  assumes "insert_step st m = (st', m')"
  obtains "m' = m" "\<And>l. winning (pc st') l \<Longrightarrow> winning (pc st) l"
      "\<And>l. restoring (pc st') l \<Longrightarrow> restoring (pc st) l"
      "\<And>l. l < length m \<Longrightarrow> \<not> restoring (pc st) l"
    | l0 where "l0 < length m" "fst (m ! l0) = empty_key_sentinel (view st)"
       "m' = m[l0 := (fst (insert_pair st), snd (m ! l0))]"
       "\<And>l'. winning (pc st') l' \<longleftrightarrow> l' = l0" "\<And>l'. \<not> restoring (pc st') l'"
       "\<And>l'. \<not> winning (pc st) l'" "\<And>l'. \<not> restoring (pc st) l'"
    | l0 where "l0 < length m" "winning (pc st) l0"
       "snd (m ! l0) = empty_value_sentinel (view st)"
       "m' = m[l0 := (fst (m ! l0), snd (insert_pair st))]"
       "\<And>l'. \<not> winning (pc st') l'" "\<And>l'. \<not> restoring (pc st') l'"
    | l0 where "l0 < length m" "snd (m ! l0) = empty_value_sentinel (view st)"
       "m' = m[l0 := (fst (m ! l0), snd (insert_pair st))]"
       "\<And>l'. \<not> winning (pc st') l'" "\<And>l'. restoring (pc st') l' \<longleftrightarrow> l' = l0"
       "\<And>l'. \<not> winning (pc st) l'" "\<And>l'. \<not> restoring (pc st) l'"
    | l0 where "l0 < length m" "restoring (pc st) l0"
       "m' = m[l0 := (fst (m ! l0), empty_value_sentinel (view st))]"
       "\<And>l'. \<not> winning (pc st') l'" "\<And>l'. \<not> restoring (pc st') l'"
  using insert_step_effect [OF assms] by blast

section \<open>The invariant of concurrent inserts\<close>

lemma owns_quiet:
  assumes o: "owns P f gs m" and i: "i < length gs"
    and p: "insert_pair st' = insert_pair (gs ! i)"
    and q: "\<And>l. P (pc st') l \<Longrightarrow> P (pc (gs ! i)) l"
  shows "owns P f (gs[i := st']) m"
  unfolding owns_def
proof (intro allI impI)
  fix j l
  assume j: "j < length (gs[i := st'])" and P: "P (pc (gs[i := st'] ! j)) l"
  have old: "P (pc (gs ! k)) l" if "k < length gs" "P (pc (gs[i := st'] ! k)) l" for k
    using that q by (cases "k = i") simp_all
  from j have j': "j < length gs" by simp
  from old [OF j' P] o j' have 1: "l < length m" and 2: "f (m ! l) = f (insert_pair (gs ! j))"
    and 3: "\<forall>k<length gs. P (pc (gs ! k)) l \<longrightarrow> k = j"
    unfolding owns_def by blast+
  from 2 p i have b2: "f (m ! l) = f (insert_pair (gs[i := st'] ! j))"
    by (cases "j = i") simp_all
  from 3 old have b3: "\<forall>k<length (gs[i := st']). P (pc (gs[i := st'] ! k)) l \<longrightarrow> k = j"
    by simp
  from 1 b2 b3 show "l < length m \<and> f (m ! l) = f (insert_pair (gs[i := st'] ! j)) \<and>
     (\<forall>k<length (gs[i := st']). P (pc (gs[i := st'] ! k)) l \<longrightarrow> k = j)"
    by blast
qed

lemma owns_field:
  assumes o: "owns P f gs m" and len: "length m' = length m"
    and same: "\<And>l. l < length m \<Longrightarrow> f (m' ! l) = f (m ! l)"
  shows "owns P f gs m'"
  using o unfolding owns_def len by (metis same)

lemma owns_unowned:
  assumes o: "owns P f gs m" and un: "\<And>k. k < length gs \<Longrightarrow> \<not> P (pc (gs ! k)) l0"
  shows "owns P f gs (m[l0 := x])"
  unfolding owns_def
proof (intro allI impI)
  fix j l
  assume j: "j < length gs" and P: "P (pc (gs ! j)) l"
  with un have "l \<noteq> l0" by blast
  with o j P show "l < length (m[l0 := x]) \<and> f (m[l0 := x] ! l) = f (insert_pair (gs ! j)) \<and>
     (\<forall>k<length gs. P (pc (gs ! k)) l \<longrightarrow> k = j)"
    unfolding owns_def by simp
qed

lemma owns_acquire:
  assumes o: "owns P f gs m" and i: "i < length gs" and l0: "l0 < length m"
    and f: "f (m ! l0) = f (insert_pair st')"
    and only: "\<And>l. P (pc st') l \<longleftrightarrow> l = l0"
    and un: "\<And>k. k < length gs \<Longrightarrow> k \<noteq> i \<Longrightarrow> \<not> P (pc (gs ! k)) l0"
  shows "owns P f (gs[i := st']) m"
  unfolding owns_def
proof (intro allI impI)
  fix j l
  assume j: "j < length (gs[i := st'])" and P: "P (pc (gs[i := st'] ! j)) l"
  from j have j': "j < length gs" by simp
  show "l < length m \<and> f (m ! l) = f (insert_pair (gs[i := st'] ! j)) \<and>
     (\<forall>k<length (gs[i := st']). P (pc (gs[i := st'] ! k)) l \<longrightarrow> k = j)"
  proof (cases "j = i")
    case True
    with P i have l: "l = l0" by (simp add: only)
    have "k = i" if "k < length gs" "P (pc (gs[i := st'] ! k)) l0" for k
      using that un [of k] by (cases "k = i") simp_all
    with True l l0 f i show ?thesis by simp
  next
    case False
    with P have Pj: "P (pc (gs ! j)) l" by simp
    with un [OF j' False] have ne: "l \<noteq> l0" by blast
    from o j' Pj have 1: "l < length m" "f (m ! l) = f (insert_pair (gs ! j))"
      and 3: "\<forall>k<length gs. P (pc (gs ! k)) l \<longrightarrow> k = j"
      unfolding owns_def by blast+
    have "k = j" if "k < length gs" "P (pc (gs[i := st'] ! k)) l" for k
    proof (cases "k = i")
      case True
      with that i ne show ?thesis by (simp add: only)
    next
      case False
      with that 3 show ?thesis by simp
    qed
    with 1 False show ?thesis by simp
  qed
qed

lemma in_flight_pc:
  "winning p l \<or> restoring p l \<Longrightarrow> p \<noteq> Returned \<and> p \<noteq> Fault"
  by (auto simp: winning_def restoring_def)

lemma update_fst_snd:
  "l < length m \<Longrightarrow> snd (m[l0 := (x, snd (m ! l0))] ! l) = snd (m ! l)"
  "l < length m \<Longrightarrow> fst (m[l0 := (fst (m ! l0), y)] ! l) = fst (m ! l)"
  by (cases "l = l0"; simp)+

lemma owns_release:
  assumes o: "owns P f gs m" and n: "\<And>l. \<not> P (pc st') l"
  shows "owns P f (gs[i := st']) m"
  unfolding owns_def
proof (intro allI impI)
  fix j l
  assume j: "j < length (gs[i := st'])" and P: "P (pc (gs[i := st'] ! j)) l"
  have old: "k \<noteq> i \<and> P (pc (gs ! k)) l" if "k < length gs" "P (pc (gs[i := st'] ! k)) l" for k
    using that n by (cases "k = i") simp_all
  from j have j': "j < length gs" by simp
  from old [OF j' P] o j' have 1: "l < length m" and 2: "f (m ! l) = f (insert_pair (gs ! j))"
    and 3: "\<forall>k<length gs. P (pc (gs ! k)) l \<longrightarrow> k = j" and 4: "j \<noteq> i"
    unfolding owns_def by blast+
  from 3 old have "\<forall>k<length (gs[i := st']). P (pc (gs[i := st'] ! k)) l \<longrightarrow> k = j"
    by simp
  with 1 2 4 show "l < length m \<and> f (m ! l) = f (insert_pair (gs[i := st'] ! j)) \<and>
     (\<forall>k<length (gs[i := st']). P (pc (gs[i := st'] ! k)) l \<longrightarrow> k = j)"
    by simp
qed

lemma bulk_event_Step:
  assumes "i < length (groups s)" and "insert_step (groups s ! i) (storage s) = (st', m')"
  shows "bulk_event v G hash (Step i) s = \<lparr>storage = m', groups = (groups s)[i := st']\<rparr>"
  using assms by (simp add: bulk_event_def)

lemma bulk_inv_Step:
  assumes inv: "bulk_inv v s" and i: "i < length (groups s)"
  shows "bulk_inv v (bulk_event v G hash (Step i) s)"
proof -
  define gs where "gs = groups s"
  define m where "m = storage s"
  define st where "st = gs ! i"
  obtain st' m' where step: "insert_step st m = (st', m')" by (cases "insert_step st m")
  have ev: "bulk_event v G hash (Step i) s = \<lparr>storage = m', groups = gs[i := st']\<rparr>"
    using i step unfolding gs_def m_def st_def by (rule bulk_event_Step)
  from i have i': "i < length gs" by (simp add: gs_def)
  from inv have V: "\<And>g. g \<in> set gs \<Longrightarrow>
         empty_key_sentinel (view g) = empty_key_sentinel v \<and>
         empty_value_sentinel (view g) = empty_value_sentinel v \<and>
         (pc g = Returned \<or> pc g = Fault \<or>
          (fst (insert_pair g) \<noteq> empty_key_sentinel v \<and>
           snd (insert_pair g) \<noteq> empty_value_sentinel v))"
    and W: "owns winning fst gs m" and R: "owns restoring snd gs m"
    unfolding bulk_inv_def gs_def m_def by blast+
  from insert_step_frame [of st m] step
  have fr: "view st' = view st" "insert_pair st' = insert_pair st" "length m' = length m"
    "pc st = Returned \<Longrightarrow> pc st' = Returned" "pc st = Fault \<Longrightarrow> pc st' = Fault"
    by simp_all
  have stV: "empty_key_sentinel (view st) = empty_key_sentinel v"
    "empty_value_sentinel (view st) = empty_value_sentinel v"
    "pc st = Returned \<or> pc st = Fault \<or>
          (fst (insert_pair st) \<noteq> empty_key_sentinel v \<and>
           snd (insert_pair st) \<noteq> empty_value_sentinel v)"
    using V [of st] i' by (simp_all add: st_def)
  have V': "empty_key_sentinel (view g) = empty_key_sentinel v \<and>
         empty_value_sentinel (view g) = empty_value_sentinel v \<and>
         (pc g = Returned \<or> pc g = Fault \<or>
          (fst (insert_pair g) \<noteq> empty_key_sentinel v \<and>
           snd (insert_pair g) \<noteq> empty_value_sentinel v))" if "g \<in> set (gs[i := st'])" for g
  proof (cases "g = st'")
    case True
    with fr stV show ?thesis by auto
  next
    case False
    with that have "g \<in> set gs"
      using set_update_subset_insert [of gs i st'] by auto
    then show ?thesis by (rule V)
  qed
  have ns: "fst (insert_pair (gs ! k)) \<noteq> empty_key_sentinel v \<and>
      snd (insert_pair (gs ! k)) \<noteq> empty_value_sentinel v"
    if "k < length gs" "winning (pc (gs ! k)) l \<or> restoring (pc (gs ! k)) l" for k l
    using V [of "gs ! k"] that in_flight_pc [OF that(2)] by simp
  have wun: "\<not> winning (pc (gs ! k)) l0"
    if "fst (m ! l0) = empty_key_sentinel v" "k < length gs" for k l0
  proof
    assume w: "winning (pc (gs ! k)) l0"
    with W that(2) have "fst (m ! l0) = fst (insert_pair (gs ! k))"
      unfolding owns_def by blast
    with ns [of k l0] w that show False by simp
  qed
  have run: "\<not> restoring (pc (gs ! k)) l0"
    if "snd (m ! l0) = empty_value_sentinel v" "k < length gs" for k l0
  proof
    assume w: "restoring (pc (gs ! k)) l0"
    with R that(2) have "snd (m ! l0) = snd (insert_pair (gs ! k))"
      unfolding owns_def by blast
    with ns [of k l0] w that show False by simp
  qed
  have pair: "insert_pair st' = insert_pair (gs ! i)" using fr by (simp add: st_def)
  from insert_step_effect [OF step]
  consider (quiet) "m' = m" "\<And>l. winning (pc st') l \<Longrightarrow> winning (pc st) l"
      "\<And>l. restoring (pc st') l \<Longrightarrow> restoring (pc st) l"
    | (win) l0 where "l0 < length m" "fst (m ! l0) = empty_key_sentinel (view st)"
       "m' = m[l0 := (fst (insert_pair st), snd (m ! l0))]"
       "\<And>l'. winning (pc st') l' \<longleftrightarrow> l' = l0" "\<And>l'. \<not> restoring (pc st') l'"
    | (publish) l0 where "l0 < length m" "winning (pc st) l0"
       "snd (m ! l0) = empty_value_sentinel (view st)"
       "m' = m[l0 := (fst (m ! l0), snd (insert_pair st))]"
       "\<And>l'. \<not> winning (pc st') l'" "\<And>l'. \<not> restoring (pc st') l'"
    | (spec) l0 where "l0 < length m" "snd (m ! l0) = empty_value_sentinel (view st)"
       "m' = m[l0 := (fst (m ! l0), snd (insert_pair st))]"
       "\<And>l'. \<not> winning (pc st') l'" "\<And>l'. restoring (pc st') l' \<longleftrightarrow> l' = l0"
    | (restore) l0 where "l0 < length m" "restoring (pc st) l0"
       "m' = m[l0 := (fst (m ! l0), empty_value_sentinel (view st))]"
       "\<And>l'. \<not> winning (pc st') l'" "\<And>l'. \<not> restoring (pc st') l'"
    by blast
  then have "owns winning fst (gs[i := st']) m' \<and> owns restoring snd (gs[i := st']) m'"
  proof cases
    case quiet
    have "owns winning fst (gs[i := st']) m"
      using W i' pair quiet(2) unfolding st_def by (rule owns_quiet)
    moreover have "owns restoring snd (gs[i := st']) m"
      using R i' pair quiet(3) unfolding st_def by (rule owns_quiet)
    ultimately show ?thesis using quiet(1) by simp
  next
    case win
    have "owns winning fst gs m'"
      unfolding win(3) using W wun [of l0] win(2) stV(1) by (intro owns_unowned) simp_all
    moreover have "l0 < length m'" using win(1) fr(3) by simp
    moreover have "fst (m' ! l0) = fst (insert_pair st')" using win(1) fr(2) by (simp add: win(3))
    moreover have "\<not> winning (pc (gs ! k)) l0" if "k < length gs" for k
      using wun [of l0 k] win(2) stV(1) that by simp
    ultimately have 1: "owns winning fst (gs[i := st']) m'"
      using i' win(4) by (intro owns_acquire) simp_all
    have "owns restoring snd gs m'"
      using R fr(3) unfolding win(3) by (rule owns_field) (rule update_fst_snd)
    then have 2: "owns restoring snd (gs[i := st']) m'"
      using win(5) by (rule owns_release)
    from 1 2 show ?thesis ..
  next
    case publish
    have "owns winning fst gs m'"
      using W fr(3) unfolding publish(4) by (rule owns_field) (rule update_fst_snd)
    then have 1: "owns winning fst (gs[i := st']) m'"
      using publish(5) by (rule owns_release)
    have "owns restoring snd gs m'"
      unfolding publish(4) using R run [of l0] publish(3) stV(2) by (intro owns_unowned) simp_all
    then have 2: "owns restoring snd (gs[i := st']) m'"
      using publish(6) by (rule owns_release)
    from 1 2 show ?thesis ..
  next
    case spec
    have "owns winning fst gs m'"
      using W fr(3) unfolding spec(3) by (rule owns_field) (rule update_fst_snd)
    then have 1: "owns winning fst (gs[i := st']) m'"
      using spec(4) by (rule owns_release)
    have "owns restoring snd gs m'"
      unfolding spec(3) using R run [of l0] spec(2) stV(2) by (intro owns_unowned) simp_all
    moreover have "l0 < length m'" using spec(1) fr(3) by simp
    moreover have "snd (m' ! l0) = snd (insert_pair st')" using spec(1) fr(2) by (simp add: spec(3))
    moreover have "\<not> restoring (pc (gs ! k)) l0" if "k < length gs" for k
      using run [of l0 k] spec(2) stV(2) that by simp
    ultimately have 2: "owns restoring snd (gs[i := st']) m'"
      using i' spec(5) by (intro owns_acquire) simp_all
    from 1 2 show ?thesis ..
  next
    case restore
    have "owns winning fst gs m'"
      using W fr(3) unfolding restore(3) by (rule owns_field) (rule update_fst_snd)
    then have 1: "owns winning fst (gs[i := st']) m'"
      using restore(4) by (rule owns_release)
    have "owns restoring snd (gs[i := st']) m"
      using R restore(5) by (rule owns_release)
    moreover have "\<not> restoring (pc (gs[i := st'] ! k)) l0" if "k < length (gs[i := st'])" for k
    proof (cases "k = i")
      case True
      with i' restore(5) show ?thesis by simp
    next
      case False
      from R i' restore(2) have "\<forall>j<length gs. restoring (pc (gs ! j)) l0 \<longrightarrow> j = i"
        unfolding owns_def st_def by blast
      with False that show ?thesis by auto
    qed
    ultimately have 2: "owns restoring snd (gs[i := st']) m'"
      unfolding restore(3) by (rule owns_unowned)
    from 1 2 show ?thesis ..
  qed
  with V' show ?thesis
    unfolding ev bulk_inv_def by simp
qed

lemma those_map_nth:
  "those (map f xs) = Some ys \<Longrightarrow>
     length ys = length xs \<and> (\<forall>k<length xs. f (xs ! k) = Some (ys ! k))"
proof (induction xs arbitrary: ys)
  case Nil
  then show ?case by simp
next
  case (Cons x xs)
  then show ?case
    by (auto simp: nth_Cons' split: option.splits)
qed

lemma cg_initial_slot_sentinels:
  assumes "cg_initial_slot v G r hash k = Some (v', s)"
  shows "empty_key_sentinel v' = empty_key_sentinel v \<and>
    empty_value_sentinel v' = empty_value_sentinel v \<and> capacity v' = capacity v"
  using assms by (auto simp: cg_initial_slot_def Let_def split: if_splits)

lemma cg_insert_init_Some:
  assumes "cg_insert_init v G hash p = Some st"
  shows "pc st = Load \<and> insert_pair st = p \<and>
    empty_key_sentinel (view st) = empty_key_sentinel v \<and>
    empty_value_sentinel (view st) = empty_value_sentinel v"
proof -
  from assms obtain v' s rest
    where th: "those (map (\<lambda>r. cg_initial_slot v G r hash (fst p)) [0..<G]) = Some ((v', s) # rest)"
      and st: "st = \<lparr>view = v', insert_pair = p, pc = Load, current_slot = s # map snd rest\<rparr>"
    by (auto simp: cg_insert_init_def split: option.splits list.splits)
  from those_map_nth [OF th] have len: "0 < G"
    and "cg_initial_slot v G ([0..<G] ! 0) hash (fst p) = Some (((v', s) # rest) ! 0)"
    by auto
  then have "cg_initial_slot v G 0 hash (fst p) = Some (v', s)" by simp
  from cg_initial_slot_sentinels [OF this] st show ?thesis by simp
qed

lemma bulk_inv_Start:
  assumes inv: "bulk_inv v s"
  shows "bulk_inv v (bulk_event v G hash (Start i p) s)"
proof (cases "i < length (groups s) \<and> pc (groups s ! i) = Returned
             \<and> fst p \<noteq> empty_key_sentinel v \<and> snd p \<noteq> empty_value_sentinel v")
  case False
  then have "bulk_event v G hash (Start i p) s = s" by (auto simp: bulk_event_def)
  with inv show ?thesis by simp
next
  case True
  define st' where "st' = (case cg_insert_init v G hash p of
      None \<Rightarrow> (groups s ! i)\<lparr>pc := Fault\<rparr> | Some st \<Rightarrow> st)"
  have ev: "bulk_event v G hash (Start i p) s = s\<lparr>groups := (groups s)[i := st']\<rparr>"
    using True by (simp add: bulk_event_def st'_def split: option.split)
  from inv have V: "\<And>g. g \<in> set (groups s) \<Longrightarrow>
         empty_key_sentinel (view g) = empty_key_sentinel v \<and>
         empty_value_sentinel (view g) = empty_value_sentinel v \<and>
         (pc g = Returned \<or> pc g = Fault \<or>
          (fst (insert_pair g) \<noteq> empty_key_sentinel v \<and>
           snd (insert_pair g) \<noteq> empty_value_sentinel v))"
    and W: "owns winning fst (groups s) (storage s)"
    and R: "owns restoring snd (groups s) (storage s)"
    unfolding bulk_inv_def by blast+
  have st': "empty_key_sentinel (view st') = empty_key_sentinel v \<and>
         empty_value_sentinel (view st') = empty_value_sentinel v \<and>
         (pc st' = Fault \<or> pc st' = Load \<and> insert_pair st' = p)"
  proof (cases "cg_insert_init v G hash p")
    case None
    with True V [of "groups s ! i"] show ?thesis by (simp add: st'_def)
  next
    case (Some st)
    with cg_insert_init_Some [OF Some] show ?thesis by (simp add: st'_def)
  qed
  then have nf: "\<not> winning (pc st') l" "\<not> restoring (pc st') l" for l
    by (auto simp: winning_def restoring_def)
  have V': "empty_key_sentinel (view g) = empty_key_sentinel v \<and>
         empty_value_sentinel (view g) = empty_value_sentinel v \<and>
         (pc g = Returned \<or> pc g = Fault \<or>
          (fst (insert_pair g) \<noteq> empty_key_sentinel v \<and>
           snd (insert_pair g) \<noteq> empty_value_sentinel v))" if "g \<in> set ((groups s)[i := st'])" for g
  proof (cases "g = st'")
    case True
    with st' \<open>i < length (groups s) \<and> pc (groups s ! i) = Returned
             \<and> fst p \<noteq> empty_key_sentinel v \<and> snd p \<noteq> empty_value_sentinel v\<close>
    show ?thesis by auto
  next
    case False
    with that have "g \<in> set (groups s)"
      using set_update_subset_insert [of "groups s" i st'] by auto
    then show ?thesis by (rule V)
  qed
  have "owns winning fst ((groups s)[i := st']) (storage s)"
    using W nf(1) by (rule owns_release)
  moreover have "owns restoring snd ((groups s)[i := st']) (storage s)"
    using R nf(2) by (rule owns_release)
  ultimately show ?thesis
    using V' unfolding ev bulk_inv_def by simp
qed

lemma bulk_inv_event:
  assumes "bulk_inv v s"
  shows "bulk_inv v (bulk_event v G hash e s)"
proof (cases e)
  case (Start i p)
  with assms show ?thesis by (simp add: bulk_inv_Start)
next
  case (Step i)
  show ?thesis
  proof (cases "i < length (groups s)")
    case True
    with assms Step show ?thesis by (simp add: bulk_inv_Step)
  next
    case False
    with assms Step show ?thesis by (simp add: bulk_event_def)
  qed
qed

lemma bulk_inv_run:
  "bulk_inv v s \<Longrightarrow> bulk_inv v (bulk_run v G hash es s)"
  by (induction es arbitrary: s) (simp_all add: bulk_inv_event)

lemma bulk_inv_init: "bulk_inv v (bulk_init v n)"
  by (simp add: bulk_inv_def bulk_init_def owns_def winning_def restoring_def)

section \<open>Published slots are stable\<close>

lemma published_Step:
  assumes inv: "bulk_inv v s" and pub: "published v s l" and i: "i < length (groups s)"
  shows "published v (bulk_event v G hash (Step i) s) l \<and>
    storage (bulk_event v G hash (Step i) s) ! l = storage s ! l"
proof -
  define gs where "gs = groups s"
  define m where "m = storage s"
  define st where "st = gs ! i"
  obtain st' m' where step: "insert_step st m = (st', m')" by (cases "insert_step st m")
  have ev: "bulk_event v G hash (Step i) s = \<lparr>storage = m', groups = gs[i := st']\<rparr>"
    using i step unfolding gs_def m_def st_def by (rule bulk_event_Step)
  from i have i': "i < length gs" and stin: "st \<in> set gs" by (simp_all add: gs_def st_def)
  from inv stin have stV: "empty_key_sentinel (view st) = empty_key_sentinel v"
    "empty_value_sentinel (view st) = empty_value_sentinel v"
    unfolding bulk_inv_def gs_def by blast+
  from pub have l: "l < length m" and k: "fst (m ! l) \<noteq> empty_key_sentinel v"
    and x: "snd (m ! l) \<noteq> empty_value_sentinel v"
    and idle: "\<And>g. g \<in> set gs \<Longrightarrow> \<not> winning (pc g) l \<and> \<not> restoring (pc g) l"
    unfolding published_def gs_def m_def by blast+
  from insert_step_frame [of st m] step have len: "length m' = length m" by simp
  from step have "m' ! l = m ! l \<and> \<not> winning (pc st') l \<and> \<not> restoring (pc st') l"
  proof (cases rule: insert_step_cases)
    case quiet
    with idle [OF stin] show ?thesis by blast
  next
    case (win l0)
    with k stV have "l0 \<noteq> l" by auto
    with win show ?thesis by simp
  next
    case (publish l0)
    with x stV have "l0 \<noteq> l" by auto
    with publish show ?thesis by simp
  next
    case (spec l0)
    with x stV have "l0 \<noteq> l" by auto
    with spec show ?thesis by simp
  next
    case (restore l0)
    with idle [OF stin] have "l0 \<noteq> l" by auto
    with restore show ?thesis by simp
  qed
  moreover have "\<not> winning (pc g) l \<and> \<not> restoring (pc g) l" if "g \<in> set (gs[i := st'])" for g
  proof (cases "g = st'")
    case True
    with calculation show ?thesis by simp
  next
    case False
    with that have "g \<in> set gs"
      using set_update_subset_insert [of gs i st'] by auto
    then show ?thesis by (rule idle)
  qed
  ultimately show ?thesis
    using l k x len unfolding ev published_def by (simp add: m_def)
qed

lemma published_Start:
  assumes pub: "published v s l"
  shows "published v (bulk_event v G hash (Start i p) s) l \<and>
    storage (bulk_event v G hash (Start i p) s) ! l = storage s ! l"
proof (cases "i < length (groups s) \<and> pc (groups s ! i) = Returned
             \<and> fst p \<noteq> empty_key_sentinel v \<and> snd p \<noteq> empty_value_sentinel v")
  case False
  then have "bulk_event v G hash (Start i p) s = s" by (auto simp: bulk_event_def)
  with pub show ?thesis by simp
next
  case True
  define st' where "st' = (case cg_insert_init v G hash p of
      None \<Rightarrow> (groups s ! i)\<lparr>pc := Fault\<rparr> | Some st \<Rightarrow> st)"
  have ev: "bulk_event v G hash (Start i p) s = s\<lparr>groups := (groups s)[i := st']\<rparr>"
    using True by (simp add: bulk_event_def st'_def split: option.split)
  have "pc st' = Fault \<or> pc st' = Load"
    using cg_insert_init_Some [of v G hash p] by (auto simp: st'_def split: option.split)
  then have nf: "\<not> winning (pc st') l \<and> \<not> restoring (pc st') l"
    by (auto simp: winning_def restoring_def)
  have "\<not> winning (pc g) l \<and> \<not> restoring (pc g) l" if "g \<in> set ((groups s)[i := st'])" for g
  proof (cases "g = st'")
    case True
    with nf show ?thesis by simp
  next
    case False
    with that have "g \<in> set (groups s)"
      using set_update_subset_insert [of "groups s" i st'] by auto
    with pub show ?thesis unfolding published_def by blast
  qed
  with pub show ?thesis unfolding ev published_def by simp
qed

lemma published_event:
  assumes "bulk_inv v s" and "published v s l"
  shows "published v (bulk_event v G hash e s) l \<and>
    storage (bulk_event v G hash e s) ! l = storage s ! l"
proof (cases e)
  case (Start i p)
  with assms show ?thesis by (simp add: published_Start)
next
  case (Step i)
  show ?thesis
  proof (cases "i < length (groups s)")
    case True
    with assms Step show ?thesis by (simp add: published_Step)
  next
    case False
    with assms Step show ?thesis by (simp add: bulk_event_def)
  qed
qed

lemma published_run:
  "bulk_inv v s \<Longrightarrow> published v s l \<Longrightarrow>
     published v (bulk_run v G hash es s) l \<and> storage (bulk_run v G hash es s) ! l = storage s ! l"
proof (induction es arbitrary: s)
  case Nil
  then show ?case by simp
next
  case (Cons e es)
  from published_event [OF Cons.prems, of G hash e]
  have p: "published v (bulk_event v G hash e s) l"
    and eq: "storage (bulk_event v G hash e s) ! l = storage s ! l" by blast+
  from Cons.prems(1) have "bulk_inv v (bulk_event v G hash e s)" by (rule bulk_inv_event)
  from Cons.IH [OF this p] eq show ?case by simp
qed

lemma bulk_run_append:
  "bulk_run v G hash (es @ es') s = bulk_run v G hash es' (bulk_run v G hash es s)"
  by (induction es arbitrary: s) simp_all

lemma winning_cases:
  assumes "winning p l"
  obtains src where "p = Value_CAS src l True" | src where "p = Value_Loop src l"
  using assms by (cases p) (auto simp: winning_def)

lemma winner_insert_step:
  assumes w: "winning (pc st) l" and l: "l < length m"
  shows "insert_step st m =
    (if snd (m ! l) = empty_value_sentinel (view st)
     then (st\<lparr>pc := Vote (case pc st of Value_CAS src loc ks \<Rightarrow> src | Value_Loop src loc \<Rightarrow> src | _ \<Rightarrow> 0) SUCCESS\<rparr>,
           m[l := (fst (m ! l), snd (insert_pair st))])
     else (st\<lparr>pc := Value_Loop (case pc st of Value_CAS src loc ks \<Rightarrow> src | Value_Loop src loc \<Rightarrow> src | _ \<Rightarrow> 0) l\<rparr>, m))"
  using w
proof (cases rule: winning_cases)
  case (1 src)
  with l show ?thesis by (simp add: insert_step_def value_compare_exchange_def)
next
  case (2 src)
  with l show ?thesis by (simp add: insert_step_def value_compare_exchange_def)
qed

lemma vote_success_origin:
  assumes step: "insert_step st m = (st', m')" and v: "pc st' = Vote src SUCCESS"
    and n: "pc st \<noteq> Vote src SUCCESS"
  shows "\<exists>l. winning (pc st) l \<and> l < length m \<and> snd (m ! l) = empty_value_sentinel (view st)"
proof (cases "pc st")
  case Load
  with step have "st' = load_window st m" by (auto simp: insert_step_def)
  with load_window_pc [of st m] Load v show ?thesis by auto
next
  case (Key_CAS s l)
  with step v show ?thesis
    by (auto simp: insert_step_def key_compare_exchange_def split: if_splits)
next
  case (Value_CAS s l ks)
  with step v show ?thesis
    by (auto simp: insert_step_def value_compare_exchange_def winning_def split: if_splits)
next
  case (Value_Loop s l)
  with step v show ?thesis
    by (auto simp: insert_step_def value_compare_exchange_def winning_def split: if_splits)
next
  case (Value_Store s l)
  with step v show ?thesis
    by (auto simp: insert_step_def value_store_def split: if_splits)
next
  case (Vote s status)
  with step have "st' = vote st s status" by (auto simp: insert_step_def)
  with vote_pc [of st s status] v show ?thesis by auto
next
  case Returned
  with step v show ?thesis by (auto simp: insert_step_def)
next
  case Fault
  with step v show ?thesis by (auto simp: insert_step_def)
qed

lemma winner_Step:
  assumes inv: "bulk_inv v s" and i: "i < length (groups s)"
    and w: "winning (pc (groups s ! i)) l"
  shows "if snd (storage s ! l) = empty_value_sentinel v
    then (\<exists>src. pc (groups (bulk_event v G hash (Step i) s) ! i) = Vote src SUCCESS) \<and>
         storage (bulk_event v G hash (Step i) s) ! l = insert_pair (groups s ! i) \<and>
         published v (bulk_event v G hash (Step i) s) l
    else (\<exists>src. pc (groups (bulk_event v G hash (Step i) s) ! i) = Value_Loop src l) \<and>
         storage (bulk_event v G hash (Step i) s) = storage s"
proof -
  define gs where "gs = groups s"
  define m where "m = storage s"
  define st where "st = gs ! i"
  obtain st' m' where step: "insert_step st m = (st', m')" by (cases "insert_step st m")
  have ev: "bulk_event v G hash (Step i) s = \<lparr>storage = m', groups = gs[i := st']\<rparr>"
    using i step unfolding gs_def m_def st_def by (rule bulk_event_Step)
  from i have i': "i < length gs" and stin: "st \<in> set gs" by (simp_all add: gs_def st_def)
  from w have w': "winning (pc st) l" by (simp add: st_def gs_def)
  from inv have V: "\<And>g. g \<in> set gs \<Longrightarrow>
         empty_key_sentinel (view g) = empty_key_sentinel v \<and>
         empty_value_sentinel (view g) = empty_value_sentinel v \<and>
         (pc g = Returned \<or> pc g = Fault \<or>
          (fst (insert_pair g) \<noteq> empty_key_sentinel v \<and>
           snd (insert_pair g) \<noteq> empty_value_sentinel v))"
    and W: "owns winning fst gs m" and R: "owns restoring snd gs m"
    unfolding bulk_inv_def gs_def m_def by blast+
  from W i' w' have l: "l < length m" and key: "fst (m ! l) = fst (insert_pair st)"
    and uniq: "\<And>j. j < length gs \<Longrightarrow> winning (pc (gs ! j)) l \<Longrightarrow> j = i"
    unfolding owns_def st_def by blast+
  from V [OF stin] in_flight_pc [of "pc st" l] w'
  have stV: "empty_value_sentinel (view st) = empty_value_sentinel v"
    and ns: "fst (insert_pair st) \<noteq> empty_key_sentinel v"
      "snd (insert_pair st) \<noteq> empty_value_sentinel v"
    by auto
  note eq = winner_insert_step [OF w' l, unfolded step stV]
  show ?thesis
  proof (cases "snd (m ! l) = empty_value_sentinel v")
    case True
    with eq have st': "\<exists>src. pc st' = Vote src SUCCESS"
      and m': "m' = m[l := (fst (m ! l), snd (insert_pair st))]" by auto
    from m' l key have ml: "m' ! l = insert_pair st" by simp
    have idle: "\<not> winning (pc g) l \<and> \<not> restoring (pc g) l" if "g \<in> set (gs[i := st'])" for g
    proof -
      from that obtain j where j: "j < length gs" "g = gs[i := st'] ! j"
        by (auto simp: in_set_conv_nth)
      show ?thesis
      proof (cases "j = i")
        case True
        with j st' show ?thesis by (auto simp: winning_def restoring_def)
      next
        case False
        with j have g: "g = gs ! j" by simp
        have "\<not> winning (pc g) l" using uniq [OF j(1)] False g by blast
        moreover have "\<not> restoring (pc g) l"
        proof
          assume r: "restoring (pc g) l"
          with R j(1) g have "snd (m ! l) = snd (insert_pair g)" unfolding owns_def by blast
          moreover from V [of g] in_flight_pc [of "pc g" l] r j(1) g
          have "snd (insert_pair g) \<noteq> empty_value_sentinel v" by auto
          ultimately show False using True by simp
        qed
        ultimately show ?thesis ..
      qed
    qed
    have "published v \<lparr>storage = m', groups = gs[i := st']\<rparr> l"
      unfolding published_def using idle l ml ns m' by (simp add: prod_eq_iff)
    with st' ml True i' show ?thesis
      unfolding ev by (simp add: m_def st_def gs_def)
  next
    case False
    with eq have "\<exists>src. pc st' = Value_Loop src l" and "m' = m" by auto
    with False i' show ?thesis
      unfolding ev by (simp add: m_def)
  qed
qed

lemma key_written_from_sentinel:
  assumes inv: "bulk_inv v s" and l: "l < length (storage s)"
    and k: "fst (storage s ! l) \<noteq> empty_key_sentinel v"
  shows "fst (storage (bulk_event v G hash e s) ! l) = fst (storage s ! l)"
proof (cases e)
  case (Start i p)
  then show ?thesis
    by (simp add: bulk_event_def split: option.split)
next
  case (Step i)
  show ?thesis
  proof (cases "i < length (groups s)")
    case False
    with Step show ?thesis by (simp add: bulk_event_def)
  next
    case True
    obtain st' m' where step: "insert_step (groups s ! i) (storage s) = (st', m')"
      by (cases "insert_step (groups s ! i) (storage s)")
    from inv True have ek: "empty_key_sentinel (view (groups s ! i)) = empty_key_sentinel v"
      unfolding bulk_inv_def by simp
    from step have "fst (m' ! l) = fst (storage s ! l)"
    proof (cases rule: insert_step_cases)
      case quiet
      then show ?thesis by simp
    next
      case (win l0)
      with k ek have "l0 \<noteq> l" by auto
      with win show ?thesis by simp
    next
      case (publish l0)
      with l show ?thesis by (simp add: update_fst_snd)
    next
      case (spec l0)
      with l show ?thesis by (simp add: update_fst_snd)
    next
      case (restore l0)
      with l show ?thesis by (simp add: update_fst_snd)
    qed
    then show ?thesis
      unfolding Step bulk_event_Step [OF True step] by simp
  qed
qed

section \<open>The winner is never blocked\<close>

lemma winning_not_restoring: "winning p l \<Longrightarrow> \<not> restoring p l'"
  by (cases p) (auto simp: winning_def restoring_def)

lemma restoring_same_slot: "restoring p l \<Longrightarrow> restoring p l' \<Longrightarrow> l = l'"
  by (cases p) (auto simp: restoring_def)

lemma accounted_Step:
  assumes inv: "bulk_inv v s" and acc: "value_accounted v s" and i: "i < length (groups s)"
  shows "value_accounted v (bulk_event v G hash (Step i) s)"
proof -
  define gs where "gs = groups s"
  define m where "m = storage s"
  define st where "st = gs ! i"
  obtain st' m' where step: "insert_step st m = (st', m')" by (cases "insert_step st m")
  have ev: "bulk_event v G hash (Step i) s = \<lparr>storage = m', groups = gs[i := st']\<rparr>"
    using i step unfolding gs_def m_def st_def by (rule bulk_event_Step)
  from i have i': "i < length gs" and stin: "st \<in> set gs" by (simp_all add: gs_def st_def)
  from inv have V: "\<And>g. g \<in> set gs \<Longrightarrow>
         empty_key_sentinel (view g) = empty_key_sentinel v \<and>
         empty_value_sentinel (view g) = empty_value_sentinel v \<and>
         (pc g = Returned \<or> pc g = Fault \<or>
          (fst (insert_pair g) \<noteq> empty_key_sentinel v \<and>
           snd (insert_pair g) \<noteq> empty_value_sentinel v))"
    and W: "owns winning fst gs m"
    unfolding bulk_inv_def gs_def m_def by blast+
  from V [OF stin] have stV: "empty_key_sentinel (view st) = empty_key_sentinel v"
    "empty_value_sentinel (view st) = empty_value_sentinel v" by simp_all
  from insert_step_frame [of st m] step have len: "length m' = length m" by simp
  let ?A = "\<lambda>gs l. \<exists>j<length gs. restoring (pc (gs ! j)) l"
  let ?B = "\<lambda>gs m l. fst (m ! l) \<noteq> empty_key_sentinel v \<and>
      (\<forall>j<length gs. \<not> winning (pc (gs ! j)) l)"
  from acc have old: "?A gs l \<or> ?B gs m l"
    if "l < length m" "snd (m ! l) \<noteq> empty_value_sentinel v" for l
    using that unfolding value_accounted_def gs_def m_def by blast
  have keepA: "?A (gs[i := st']) l" if "?A gs l" "\<not> restoring (pc st) l" for l
  proof -
    from that obtain j where j: "j < length gs" "restoring (pc (gs ! j)) l" by blast
    with that(2) have "j \<noteq> i" by (auto simp: st_def)
    with j show ?thesis by auto
  qed
  have keepB: "?B (gs[i := st']) m' l"
    if "?B gs m l" "fst (m' ! l) = fst (m ! l)" "\<not> winning (pc st') l" for l
  proof -
    have "\<not> winning (pc (gs[i := st'] ! j)) l" if "j < length gs" for j
      using that \<open>?B gs m l\<close> \<open>\<not> winning (pc st') l\<close> by (cases "j = i") simp_all
    with that(1,2) show ?thesis by simp
  qed
  have "?A (gs[i := st']) l \<or> ?B (gs[i := st']) m' l"
    if l: "l < length m" and x: "snd (m' ! l) \<noteq> empty_value_sentinel v" for l
    using step
  proof (cases rule: insert_step_cases)
    case quiet
    from x quiet(1) old [OF l] have "?A gs l \<or> ?B gs m l" by simp
    then show ?thesis
    proof
      assume "?A gs l"
      then show ?thesis using quiet(4) [OF l] by (intro disjI1 keepA)
    next
      assume b: "?B gs m l"
      with i' have "\<not> winning (pc st) l" by (auto simp: st_def)
      with quiet(2) have "\<not> winning (pc st') l" by blast
      with b quiet(1) show ?thesis by (intro disjI2 keepB) simp_all
    qed
  next
    case (win l0)
    from l have s: "snd (m' ! l) = snd (m ! l)" unfolding win(3) by (rule update_fst_snd)
    with x old [OF l] have "?A gs l \<or> ?B gs m l" by simp
    then show ?thesis
    proof
      assume "?A gs l"
      then show ?thesis using win(7) by (intro disjI1 keepA)
    next
      assume b: "?B gs m l"
      with win(2) stV have ne: "l0 \<noteq> l" by auto
      then have "fst (m' ! l) = fst (m ! l)" by (simp add: win(3))
      moreover from ne win(4) have "\<not> winning (pc st') l" by auto
      ultimately show ?thesis using b by (intro disjI2 keepB)
    qed
  next
    case (publish l0)
    from l have f: "fst (m' ! l) = fst (m ! l)" unfolding publish(4) by (rule update_fst_snd)
    show ?thesis
    proof (cases "l = l0")
      case True
      from W i' publish(2) have key: "fst (m ! l0) = fst (insert_pair st)"
        and uniq: "\<And>j. j < length gs \<Longrightarrow> winning (pc (gs ! j)) l0 \<Longrightarrow> j = i"
        unfolding owns_def st_def by blast+
      from V [OF stin] in_flight_pc [of "pc st" l0] publish(2)
      have "fst (insert_pair st) \<noteq> empty_key_sentinel v" by auto
      with key f True have "fst (m' ! l) \<noteq> empty_key_sentinel v" by simp
      moreover have "\<not> winning (pc (gs[i := st'] ! j)) l" if "j < length (gs[i := st'])" for j
        using that uniq [of j] publish(5) True by (cases "j = i") auto
      ultimately show ?thesis by blast
    next
      case False
      then have "snd (m' ! l) = snd (m ! l)" by (simp add: publish(4))
      with x old [OF l] have "?A gs l \<or> ?B gs m l" by simp
      then show ?thesis
      proof
        assume "?A gs l"
        then show ?thesis using winning_not_restoring [OF publish(2)] by (intro disjI1 keepA)
      next
        assume "?B gs m l"
        then show ?thesis using f publish(5) by (intro disjI2 keepB)
      qed
    qed
  next
    case (spec l0)
    from l have f: "fst (m' ! l) = fst (m ! l)" unfolding spec(3) by (rule update_fst_snd)
    show ?thesis
    proof (cases "l = l0")
      case True
      with spec(5) i' have "restoring (pc (gs[i := st'] ! i)) l" by simp
      with i' show ?thesis by auto
    next
      case False
      then have "snd (m' ! l) = snd (m ! l)" by (simp add: spec(3))
      with x old [OF l] have "?A gs l \<or> ?B gs m l" by simp
      then show ?thesis
      proof
        assume "?A gs l"
        then show ?thesis using spec(7) by (intro disjI1 keepA)
      next
        assume "?B gs m l"
        then show ?thesis using f spec(4) by (intro disjI2 keepB)
      qed
    qed
  next
    case (restore l0)
    from l have f: "fst (m' ! l) = fst (m ! l)" unfolding restore(3) by (rule update_fst_snd)
    have ne: "l \<noteq> l0"
    proof
      assume "l = l0"
      with restore(1) have "snd (m' ! l) = empty_value_sentinel (view st)"
        by (simp add: restore(3))
      with x stV show False by simp
    qed
    then have "snd (m' ! l) = snd (m ! l)" by (simp add: restore(3))
    with x old [OF l] have "?A gs l \<or> ?B gs m l" by simp
    then show ?thesis
    proof
      assume "?A gs l"
      moreover have "\<not> restoring (pc st) l"
        using restoring_same_slot [OF restore(2), of l] ne by blast
      ultimately show ?thesis by (intro disjI1 keepA)
    next
      assume "?B gs m l"
      then show ?thesis using f restore(4) by (intro disjI2 keepB)
    qed
  qed
  then show ?thesis
    unfolding ev value_accounted_def using len by simp
qed


lemma accounted_Start:
  assumes acc: "value_accounted v s"
  shows "value_accounted v (bulk_event v G hash (Start i p) s)"
proof (cases "i < length (groups s) \<and> pc (groups s ! i) = Returned
             \<and> fst p \<noteq> empty_key_sentinel v \<and> snd p \<noteq> empty_value_sentinel v")
  case False
  then have "bulk_event v G hash (Start i p) s = s" by (auto simp: bulk_event_def)
  with acc show ?thesis by simp
next
  case True
  define st' where "st' = (case cg_insert_init v G hash p of
      None \<Rightarrow> (groups s ! i)\<lparr>pc := Fault\<rparr> | Some st \<Rightarrow> st)"
  have ev: "bulk_event v G hash (Start i p) s = s\<lparr>groups := (groups s)[i := st']\<rparr>"
    using True by (simp add: bulk_event_def st'_def split: option.split)
  have "pc st' = Fault \<or> pc st' = Load"
    using cg_insert_init_Some [of v G hash p] by (auto simp: st'_def split: option.split)
  then have nw: "\<not> winning (pc st') l" for l
    by (auto simp: winning_def)
  from True have nr: "\<not> restoring (pc (groups s ! i)) l" for l
    by (simp add: restoring_def)
  show ?thesis
    unfolding ev value_accounted_def
  proof (intro allI impI)
    fix l
    assume l: "l < length (storage (s\<lparr>groups := (groups s)[i := st']\<rparr>))"
      and x: "snd (storage (s\<lparr>groups := (groups s)[i := st']\<rparr>) ! l) \<noteq> empty_value_sentinel v"
    with acc have "(\<exists>j<length (groups s). restoring (pc (groups s ! j)) l) \<or>
        (fst (storage s ! l) \<noteq> empty_key_sentinel v \<and>
         (\<forall>j<length (groups s). \<not> winning (pc (groups s ! j)) l))"
      unfolding value_accounted_def by simp
    then show "(\<exists>j<length (groups (s\<lparr>groups := (groups s)[i := st']\<rparr>)).
           restoring (pc (groups (s\<lparr>groups := (groups s)[i := st']\<rparr>) ! j)) l) \<or>
       fst (storage (s\<lparr>groups := (groups s)[i := st']\<rparr>) ! l) \<noteq> empty_key_sentinel v \<and>
       (\<forall>j<length (groups (s\<lparr>groups := (groups s)[i := st']\<rparr>)).
           \<not> winning (pc (groups (s\<lparr>groups := (groups s)[i := st']\<rparr>) ! j)) l)"
    proof
      assume "\<exists>j<length (groups s). restoring (pc (groups s ! j)) l"
      then obtain j where j: "j < length (groups s)" "restoring (pc (groups s ! j)) l" by blast
      with nr have "j \<noteq> i" by auto
      with j show ?thesis by auto
    next
      assume b: "fst (storage s ! l) \<noteq> empty_key_sentinel v \<and>
         (\<forall>j<length (groups s). \<not> winning (pc (groups s ! j)) l)"
      have "\<not> winning (pc ((groups s)[i := st'] ! j)) l" if "j < length (groups s)" for j
        using that b nw by (cases "j = i") simp_all
      with b show ?thesis by simp
    qed
  qed
qed

lemma accounted_event:
  assumes "bulk_inv v s" and "value_accounted v s"
  shows "value_accounted v (bulk_event v G hash e s)"
proof (cases e)
  case (Start i p)
  with assms show ?thesis by (simp add: accounted_Start)
next
  case (Step i)
  show ?thesis
  proof (cases "i < length (groups s)")
    case True
    with assms Step show ?thesis by (simp add: accounted_Step)
  next
    case False
    with assms Step show ?thesis by (simp add: bulk_event_def)
  qed
qed

lemma accounted_run:
  "bulk_inv v s \<Longrightarrow> value_accounted v s \<Longrightarrow> value_accounted v (bulk_run v G hash es s)"
proof (induction es arbitrary: s)
  case Nil
  then show ?case by simp
next
  case (Cons e es)
  from Cons.prems have "bulk_inv v (bulk_event v G hash e s)"
    and "value_accounted v (bulk_event v G hash e s)"
    by (simp_all add: bulk_inv_event accounted_event)
  then show ?case using Cons.IH by simp
qed

lemma accounted_init: "value_accounted v (bulk_init v n)"
  by (simp add: value_accounted_def bulk_init_def)

lemma restorer_Step:
  assumes inv: "bulk_inv v s" and j: "j < length (groups s)"
    and r: "restoring (pc (groups s ! j)) l"
  shows "snd (storage (bulk_event v G hash (Step j) s) ! l) = empty_value_sentinel v \<and>
    length (groups (bulk_event v G hash (Step j) s)) = length (groups s) \<and>
    (\<forall>i. i \<noteq> j \<longrightarrow> groups (bulk_event v G hash (Step j) s) ! i = groups s ! i)"
proof -
  obtain st' m' where step: "insert_step (groups s ! j) (storage s) = (st', m')"
    by (cases "insert_step (groups s ! j) (storage s)")
  note ev = bulk_event_Step [OF j step, of v G hash]
  from inv j have ev': "empty_value_sentinel (view (groups s ! j)) = empty_value_sentinel v"
    and R: "owns restoring snd (groups s) (storage s)"
    unfolding bulk_inv_def by simp_all
  from R j r have l: "l < length (storage s)" unfolding owns_def by blast
  from r obtain src where "pc (groups s ! j) = Value_Store src l"
    by (cases "pc (groups s ! j)") (auto simp: restoring_def)
  with step l ev' have "m' = (storage s)[l := (fst (storage s ! l), empty_value_sentinel v)]"
    by (auto simp: insert_step_def value_store_def)
  with l show ?thesis unfolding ev by simp
qed

lemma winner_progress:
  assumes inv: "bulk_inv v s" and acc: "value_accounted v s"
    and i: "i < length (groups s)" and w: "winning (pc (groups s ! i)) l"
  shows "\<exists>es. length es \<le> 2 \<and>
    (\<exists>src. pc (groups (bulk_run v G hash es s) ! i) = Vote src SUCCESS) \<and>
    storage (bulk_run v G hash es s) ! l = insert_pair (groups s ! i)"
proof (cases "snd (storage s ! l) = empty_value_sentinel v")
  case True
  with winner_Step [OF inv i w, of G hash]
  have "(\<exists>src. pc (groups (bulk_run v G hash [Step i] s) ! i) = Vote src SUCCESS) \<and>
    storage (bulk_run v G hash [Step i] s) ! l = insert_pair (groups s ! i)"
    by simp
  then show ?thesis by (intro exI [of _ "[Step i]"]) simp
next
  case False
  from inv i w have l: "l < length (storage s)"
    unfolding bulk_inv_def owns_def by blast
  with acc False i w obtain j where j: "j < length (groups s)"
    and r: "restoring (pc (groups s ! j)) l"
    unfolding value_accounted_def by blast
  from w r have ne: "i \<noteq> j" using winning_not_restoring by blast
  let ?s = "bulk_event v G hash (Step j) s"
  from restorer_Step [OF inv j r, of G hash] ne
  have x: "snd (storage ?s ! l) = empty_value_sentinel v"
    and i': "i < length (groups ?s)" and same: "groups ?s ! i = groups s ! i"
    using i by simp_all
  from inv have inv': "bulk_inv v ?s" by (rule bulk_inv_event)
  from w same have w': "winning (pc (groups ?s ! i)) l" by simp
  from winner_Step [OF inv' i' w', of G hash] x same
  have "(\<exists>src. pc (groups (bulk_run v G hash [Step j, Step i] s) ! i) = Vote src SUCCESS) \<and>
    storage (bulk_run v G hash [Step j, Step i] s) ! l = insert_pair (groups s ! i)"
    by simp
  then show ?thesis by (intro exI [of _ "[Step j, Step i]"]) simp
qed

section \<open>Two-phase publication\<close>

lemma race_prefix:
  "bulk_run \<lparr>capacity = 8, empty_key_sentinel = - 1, empty_value_sentinel = - 1,
         step_size = 0\<rparr> 1 unat
       [Start 0 (1, 10), Start 1 (5, 50), Step 0, Step 1, Step 0]
       (bulk_init \<lparr>capacity = 8, empty_key_sentinel = - 1, empty_value_sentinel = - 1,
         step_size = 0\<rparr> 2) =
   \<lparr>storage = [(- 1, - 1), (- 1, - 1), (1, - 1), (- 1, - 1), (- 1, - 1), (- 1, - 1), (- 1, - 1),
        (- 1, - 1)],
    groups =
      [\<lparr>view = \<lparr>capacity = 8, empty_key_sentinel = - 1, empty_value_sentinel = - 1,
         step_size = 6\<rparr>, insert_pair = (1, 10), pc = Value_CAS 0 2 True, current_slot = [2]\<rparr>,
       \<lparr>view = \<lparr>capacity = 8, empty_key_sentinel = - 1, empty_value_sentinel = - 1,
         step_size = 2\<rparr>, insert_pair = (5, 50), pc = Key_CAS 0 2, current_slot = [2]\<rparr>]\<rparr>"
proof -
  let ?v = "\<lparr>capacity = 8, empty_key_sentinel = - 1, empty_value_sentinel = - 1,
         step_size = 0\<rparr> :: device_view_base"
  let ?e = "(- 1, - 1) :: slot"
  let ?idle = "\<lparr>view = ?v, insert_pair = ?e, pc = Returned, current_slot = []\<rparr>"
  let ?a = "\<lambda>p. \<lparr>view = \<lparr>capacity = 8, empty_key_sentinel = - 1, empty_value_sentinel = - 1,
         step_size = 6\<rparr>, insert_pair = (1, 10), pc = p, current_slot = [2]\<rparr>"
  let ?b = "\<lambda>p. \<lparr>view = \<lparr>capacity = 8, empty_key_sentinel = - 1, empty_value_sentinel = - 1,
         step_size = 2\<rparr>, insert_pair = (5, 50), pc = p, current_slot = [2]\<rparr>"
  let ?m0 = "[?e, ?e, ?e, ?e, ?e, ?e, ?e, ?e]"
  let ?m1 = "[?e, ?e, (1, - 1), ?e, ?e, ?e, ?e, ?e]"
  have ia: "cg_insert_init ?v 1 unat (1, 10) = Some (?a Load)"
    by (simp add: cg_insert_init_def cg_initial_slot_def size_t_def)
  have ib: "cg_insert_init ?v 1 unat (5, 50) = Some (?b Load)"
    by (simp add: cg_insert_init_def cg_initial_slot_def size_t_def)
  have s0: "bulk_init ?v 2 = \<lparr>storage = ?m0, groups = [?idle, ?idle]\<rparr>"
    by (simp add: bulk_init_def numeral_eq_Suc)
  have e1: "bulk_event ?v 1 unat (Start 0 (1, 10)) \<lparr>storage = ?m0, groups = [?idle, ?idle]\<rparr>
      = \<lparr>storage = ?m0, groups = [?a Load, ?idle]\<rparr>"
    by (simp add: bulk_event_def ia [unfolded One_nat_def])
  have e2: "bulk_event ?v 1 unat (Start 1 (5, 50)) \<lparr>storage = ?m0, groups = [?a Load, ?idle]\<rparr>
      = \<lparr>storage = ?m0, groups = [?a Load, ?b Load]\<rparr>"
    by (simp add: bulk_event_def ib [unfolded One_nat_def])
  have e3: "bulk_event ?v 1 unat (Step 0) \<lparr>storage = ?m0, groups = [?a Load, ?b Load]\<rparr>
      = \<lparr>storage = ?m0, groups = [?a (Key_CAS 0 2), ?b Load]\<rparr>"
    by (simp add: bulk_event_def step_defs)
  have e4: "bulk_event ?v 1 unat (Step 1) \<lparr>storage = ?m0, groups = [?a (Key_CAS 0 2), ?b Load]\<rparr>
      = \<lparr>storage = ?m0, groups = [?a (Key_CAS 0 2), ?b (Key_CAS 0 2)]\<rparr>"
    by (simp add: bulk_event_def step_defs)
  have e5: "bulk_event ?v 1 unat (Step 0)
        \<lparr>storage = ?m0, groups = [?a (Key_CAS 0 2), ?b (Key_CAS 0 2)]\<rparr>
      = \<lparr>storage = ?m1, groups = [?a (Value_CAS 0 2 True), ?b (Key_CAS 0 2)]\<rparr>"
    by (simp add: bulk_event_def step_defs)
  show ?thesis
    by (simp only: bulk_run.simps s0 e1 e2 e3 e4 e5)
qed

text \<open>
  Claim C3. In every state that concurrent inserts can reach: a successful key exchange
  from the empty key sentinel makes the group the winner of the slot; each further step of
  the winner is a value exchange that expects the empty value sentinel, which either
  succeeds, so that the slot holds exactly the inserted pair and the lane reports
  \<open>SUCCESS\<close>, or fails and leaves the winner in the loop with the storage untouched; a
  lane comes to report \<open>SUCCESS\<close> by such a successful value exchange only; and the winner
  is never blocked: at most one step of another group (the store of a restoring group)
  precedes the step in which its value exchange succeeds.
\<close>

theorem value_published_on_success:
  assumes s: "s = bulk_run v G hash es (bulk_init v n)" and i: "i < length (groups s)"
  shows
   "(\<forall>src l. pc (groups s ! i) = Key_CAS src l \<and> l < length (storage s) \<and>
        fst (storage s ! l) = empty_key_sentinel v \<longrightarrow>
        winning (pc (groups (bulk_event v G hash (Step i) s) ! i)) l) \<and>
    (\<forall>l. winning (pc (groups s ! i)) l \<longrightarrow>
       (if snd (storage s ! l) = empty_value_sentinel v
        then (\<exists>src. pc (groups (bulk_event v G hash (Step i) s) ! i) = Vote src SUCCESS) \<and>
             storage (bulk_event v G hash (Step i) s) ! l = insert_pair (groups s ! i)
        else (\<exists>src. pc (groups (bulk_event v G hash (Step i) s) ! i) = Value_Loop src l) \<and>
             storage (bulk_event v G hash (Step i) s) = storage s)) \<and>
    (\<forall>src. pc (groups (bulk_event v G hash (Step i) s) ! i) = Vote src SUCCESS \<and>
        pc (groups s ! i) \<noteq> Vote src SUCCESS \<longrightarrow>
        (\<exists>l. winning (pc (groups s ! i)) l \<and>
           snd (storage s ! l) = empty_value_sentinel v \<and>
           storage (bulk_event v G hash (Step i) s) ! l = insert_pair (groups s ! i))) \<and>
    (\<forall>l. winning (pc (groups s ! i)) l \<longrightarrow>
       (\<exists>es'. length es' \<le> 2 \<and>
          (\<exists>src. pc (groups (bulk_run v G hash es' s) ! i) = Vote src SUCCESS) \<and>
          storage (bulk_run v G hash es' s) ! l = insert_pair (groups s ! i)))"
proof -
  have inv: "bulk_inv v s" unfolding s using bulk_inv_init by (rule bulk_inv_run)
  have acc: "value_accounted v s"
    unfolding s using bulk_inv_init accounted_init by (rule accounted_run)
  obtain st' m' where step: "insert_step (groups s ! i) (storage s) = (st', m')"
    by (cases "insert_step (groups s ! i) (storage s)")
  note ev = bulk_event_Step [OF i step, of v G hash]
  from inv i have ek: "empty_key_sentinel (view (groups s ! i)) = empty_key_sentinel v"
    and ev': "empty_value_sentinel (view (groups s ! i)) = empty_value_sentinel v"
    unfolding bulk_inv_def by simp_all
  have 1: "winning (pc (groups (bulk_event v G hash (Step i) s) ! i)) l"
    if "pc (groups s ! i) = Key_CAS src l" "l < length (storage s)"
      "fst (storage s ! l) = empty_key_sentinel v" for src l
    using that step i ek unfolding ev
    by (auto simp: insert_step_def key_compare_exchange_def winning_def)
  have 2: "if snd (storage s ! l) = empty_value_sentinel v
        then (\<exists>src. pc (groups (bulk_event v G hash (Step i) s) ! i) = Vote src SUCCESS) \<and>
             storage (bulk_event v G hash (Step i) s) ! l = insert_pair (groups s ! i)
        else (\<exists>src. pc (groups (bulk_event v G hash (Step i) s) ! i) = Value_Loop src l) \<and>
             storage (bulk_event v G hash (Step i) s) = storage s"
    if "winning (pc (groups s ! i)) l" for l
    using winner_Step [OF inv i that, of G hash] by (simp split: if_splits)
  have 3: "\<exists>l. winning (pc (groups s ! i)) l \<and>
           snd (storage s ! l) = empty_value_sentinel v \<and>
           storage (bulk_event v G hash (Step i) s) ! l = insert_pair (groups s ! i)"
    if "pc (groups (bulk_event v G hash (Step i) s) ! i) = Vote src SUCCESS"
      "pc (groups s ! i) \<noteq> Vote src SUCCESS" for src
  proof -
    from that(1) i have "pc st' = Vote src SUCCESS" unfolding ev by simp
    from vote_success_origin [OF step this that(2)] ev'
    obtain l where l: "winning (pc (groups s ! i)) l"
      "snd (storage s ! l) = empty_value_sentinel v" by auto
    with 2 [OF l(1)] show ?thesis by auto
  qed
  have 4: "\<exists>es'. length es' \<le> 2 \<and>
          (\<exists>src. pc (groups (bulk_run v G hash es' s) ! i) = Vote src SUCCESS) \<and>
          storage (bulk_run v G hash es' s) ! l = insert_pair (groups s ! i)"
    if "winning (pc (groups s ! i)) l" for l
    using inv acc i that by (rule winner_progress)
  from 1 2 3 4 show ?thesis by blast
qed

theorem value_published_on_success_witness:
  "(\<exists>src. pc (groups (bulk_run \<lparr>capacity = 8, empty_key_sentinel = - 1,
         empty_value_sentinel = - 1, step_size = 0\<rparr> 1 unat
       ([Start 0 (1, 10), Start 1 (5, 50), Step 0, Step 1, Step 0] @ [Step 0])
       (bulk_init \<lparr>capacity = 8, empty_key_sentinel = - 1, empty_value_sentinel = - 1,
         step_size = 0\<rparr> 2)) ! 0) = Vote src SUCCESS) \<and>
   storage (bulk_run \<lparr>capacity = 8, empty_key_sentinel = - 1, empty_value_sentinel = - 1,
         step_size = 0\<rparr> 1 unat
       ([Start 0 (1, 10), Start 1 (5, 50), Step 0, Step 1, Step 0] @ [Step 0])
       (bulk_init \<lparr>capacity = 8, empty_key_sentinel = - 1, empty_value_sentinel = - 1,
         step_size = 0\<rparr> 2)) ! 2 = (1, 10)"
proof -
  let ?v = "\<lparr>capacity = 8, empty_key_sentinel = - 1, empty_value_sentinel = - 1,
         step_size = 0\<rparr> :: device_view_base"
  let ?es = "[Start 0 (1, 10), Start 1 (5, 50), Step 0, Step 1, Step 0]"
  let ?s = "bulk_run ?v 1 unat ?es (bulk_init ?v 2)"
  have i: "0 < length (groups ?s)" unfolding race_prefix by simp
  have w: "winning (pc (groups ?s ! 0)) 2" unfolding race_prefix by (simp add: winning_def)
  have e: "snd (storage ?s ! 2) = empty_value_sentinel ?v" unfolding race_prefix by simp
  from value_published_on_success [OF refl i] w e
  have "(\<exists>src. pc (groups (bulk_event ?v 1 unat (Step 0) ?s) ! 0) = Vote src SUCCESS) \<and>
      storage (bulk_event ?v 1 unat (Step 0) ?s) ! 2 = insert_pair (groups ?s ! 0)"
    by (metis (no_types, lifting))
  moreover have "insert_pair (groups ?s ! 0) = (1, 10)" unfolding race_prefix by simp
  ultimately show ?thesis
    by (simp only: bulk_run_append bulk_run.simps)
qed

text \<open>
  Claim C5. In every state that concurrent inserts can reach: once the winner of a slot has
  written its value, the slot holds the inserted pair after any further events; a published
  slot keeps both fields under any further events; and no event changes a key field that
  does not hold the empty key sentinel.
\<close>

theorem published_slot_immutable:
  assumes s: "s = bulk_run v G hash es (bulk_init v n)"
  shows
   "(\<forall>i l. i < length (groups s) \<and> winning (pc (groups s ! i)) l \<and>
        snd (storage s ! l) = empty_value_sentinel v \<longrightarrow>
        (\<forall>es'. storage (bulk_run v G hash (Step i # es') s) ! l = insert_pair (groups s ! i))) \<and>
    (\<forall>l. published v s l \<longrightarrow>
        (\<forall>es'. storage (bulk_run v G hash es' s) ! l = storage s ! l)) \<and>
    (\<forall>e l. l < length (storage s) \<and> fst (storage s ! l) \<noteq> empty_key_sentinel v \<longrightarrow>
        fst (storage (bulk_event v G hash e s) ! l) = fst (storage s ! l))"
proof -
  have inv: "bulk_inv v s" unfolding s using bulk_inv_init by (rule bulk_inv_run)
  have 1: "storage (bulk_run v G hash (Step i # es') s) ! l = insert_pair (groups s ! i)"
    if "i < length (groups s)" "winning (pc (groups s ! i)) l"
      "snd (storage s ! l) = empty_value_sentinel v" for i l es'
  proof -
    from winner_Step [OF inv that(1,2), of G hash] that(3)
    have eq: "storage (bulk_event v G hash (Step i) s) ! l = insert_pair (groups s ! i)"
      and pub: "published v (bulk_event v G hash (Step i) s) l" by simp_all
    from inv have "bulk_inv v (bulk_event v G hash (Step i) s)" by (rule bulk_inv_event)
    from published_run [OF this pub, of G hash es'] eq show ?thesis by simp
  qed
  have 2: "storage (bulk_run v G hash es' s) ! l = storage s ! l" if "published v s l" for l es'
    using published_run [OF inv that] by simp
  have 3: "fst (storage (bulk_event v G hash e s) ! l) = fst (storage s ! l)"
    if "l < length (storage s)" "fst (storage s ! l) \<noteq> empty_key_sentinel v" for e l
    using inv that by (rule key_written_from_sentinel)
  from 1 2 3 show ?thesis by blast
qed

theorem published_slot_immutable_witness:
  "storage (bulk_run \<lparr>capacity = 8, empty_key_sentinel = - 1, empty_value_sentinel = - 1,
         step_size = 0\<rparr> 1 unat
       ([Start 0 (1, 10), Start 1 (5, 50), Step 0, Step 1, Step 0] @
        Step 0 # [Step 1, Step 1, Step 1, Step 0, Start 0 (9, 90), Step 0, Step 0, Step 1])
       (bulk_init \<lparr>capacity = 8, empty_key_sentinel = - 1, empty_value_sentinel = - 1,
         step_size = 0\<rparr> 2)) ! 2 = (1, 10)"
proof -
  let ?v = "\<lparr>capacity = 8, empty_key_sentinel = - 1, empty_value_sentinel = - 1,
         step_size = 0\<rparr> :: device_view_base"
  let ?es = "[Start 0 (1, 10), Start 1 (5, 50), Step 0, Step 1, Step 0]"
  let ?s = "bulk_run ?v 1 unat ?es (bulk_init ?v 2)"
  have i: "0 < length (groups ?s)" unfolding race_prefix by simp
  have w: "winning (pc (groups ?s ! 0)) 2" unfolding race_prefix by (simp add: winning_def)
  have e: "snd (storage ?s ! 2) = empty_value_sentinel ?v" unfolding race_prefix by simp
  from published_slot_immutable [OF refl, of ?v "Suc 0" unat ?es 2] i w e
  have "storage (bulk_run ?v 1 unat
       (Step 0 # [Step 1, Step 1, Step 1, Step 0, Start 0 (9, 90), Step 0, Step 0, Step 1]) ?s) ! 2
      = insert_pair (groups ?s ! 0)"
    unfolding One_nat_def by blast
  moreover have "insert_pair (groups ?s ! 0) = (1, 10)" unfolding race_prefix by simp
  ultimately show ?thesis
    by (simp only: bulk_run_append)
qed

section \<open>Advancing the iterator of \<open>find_all\<close>\<close>

lemma it_next_slot_mod:
  assumes "it_begin it = 0" "it_end it = n" "q < n"
  shows "it_next_slot it q = (q + 1) mod n"
proof (cases "q + 1 < n")
  case True
  with assms show ?thesis by (simp add: it_next_slot_def)
next
  case False
  with assms have "q + 1 = n" by simp
  with assms False show ?thesis by (simp add: it_next_slot_def)
qed

lemma advance_loop_scan:
  assumes b: "it_begin it = 0" and e: "it_end it = length m"
  shows "q < length m \<Longrightarrow>
    fst (m ! ((q + d) mod length m)) = it_key it \<or>
      fst (m ! ((q + d) mod length m)) = it_empty_key_sentinel it \<Longrightarrow>
    (\<And>j. j < d \<Longrightarrow> fst (m ! ((q + j) mod length m)) \<noteq> it_key it \<and>
        fst (m ! ((q + j) mod length m)) \<noteq> it_empty_key_sentinel it) \<Longrightarrow>
    advance_loop m (it\<lparr>it_current := q\<rparr>) =
      Some (Inr (it\<lparr>it_current :=
        if fst (m ! ((q + d) mod length m)) = it_key it then (q + d) mod length m
        else it_end it\<rparr>))"
proof (induction d arbitrary: q)
  case 0
  then show ?case
    by (subst advance_loop.simps) auto
next
  case (Suc d)
  let ?n = "length m"
  let ?q = "(q + 1) mod ?n"
  from Suc.prems(1) have n: "0 < ?n" by (cases m) auto
  then have q': "?q < ?n" by simp
  have shift: "(?q + j) mod ?n = (q + Suc j) mod ?n" for j
    by (simp add: mod_add_left_eq)
  from Suc.prems(3) [of 0] Suc.prems(1)
  have here: "fst (m ! q) \<noteq> it_key it" "fst (m ! q) \<noteq> it_empty_key_sentinel it" by simp_all
  have nxt: "it_next_slot (it\<lparr>it_current := q\<rparr>) q = ?q"
    using b e Suc.prems(1) by (intro it_next_slot_mod) simp_all
  have "advance_loop m (it\<lparr>it_current := q\<rparr>) = advance_loop m (it\<lparr>it_current := ?q\<rparr>)"
    using here Suc.prems(1) nxt by (subst advance_loop.simps) simp
  also have "\<dots> = Some (Inr (it\<lparr>it_current :=
        if fst (m ! ((?q + d) mod ?n)) = it_key it then (?q + d) mod ?n else it_end it\<rparr>))"
  proof (rule Suc.IH [OF q'])
    show "fst (m ! ((?q + d) mod ?n)) = it_key it \<or>
      fst (m ! ((?q + d) mod ?n)) = it_empty_key_sentinel it"
      using Suc.prems(2) unfolding shift .
    show "fst (m ! ((?q + j) mod ?n)) \<noteq> it_key it \<and>
        fst (m ! ((?q + j) mod ?n)) \<noteq> it_empty_key_sentinel it" if "j < d" for j
      using Suc.prems(3) [of "Suc j"] that unfolding shift by simp
  qed
  finally show ?case unfolding shift .
qed

lemma next_slot_funpow:
  assumes "p < capacity v"
  shows "(next_slot v ^^ j) p = (p + j) mod capacity v"
proof (induction j)
  case 0
  with assms show ?case by simp
next
  case (Suc j)
  let ?q = "(p + j) mod capacity v"
  have q: "?q < capacity v" using assms by simp
  have "next_slot v ?q = (?q + 1) mod capacity v"
  proof (cases "?q + 1 < capacity v")
    case True
    then show ?thesis by (simp add: next_slot_def)
  next
    case False
    with q have "?q + 1 = capacity v" by simp
    with False show ?thesis by (simp add: next_slot_def)
  qed
  also have "\<dots> = (p + Suc j) mod capacity v" by (simp add: mod_Suc_eq)
  finally show ?case by (simp add: Suc.IH)
qed

lemma mod_add_inj:
  fixes p n :: nat
  assumes j: "j1 < n" "j2 < n" and eq: "(p + j1) mod n = (p + j2) mod n"
  shows "j1 = j2"
proof -
  have *: "a = b" if "a \<le> b" "b < n" "(p + a) mod n = (p + b) mod n" for a b :: nat
  proof -
    from that have "(p + b) mod n = (p + a) mod n" "p + a \<le> p + b" by simp_all
    then have "n dvd (p + b) - (p + a)" by (simp add: mod_eq_dvd_iff_nat)
    then have "n dvd b - a" by simp
    moreover have "b - a < n" using that by simp
    ultimately have "b - a = 0" using nat_dvd_not_less by (cases "b - a = 0") auto
    with that show ?thesis by simp
  qed
  show ?thesis
  proof (cases "j1 \<le> j2")
    case True
    from * [OF True j(2) eq] show ?thesis .
  next
    case False
    then have "j2 \<le> j1" by simp
    from * [OF this j(1) eq [symmetric]] show ?thesis by simp
  qed
qed

lemma filter_upt_Cons:
  "filter P [a..<b] = h # hs \<Longrightarrow>
     a \<le> h \<and> h < b \<and> P h \<and> (\<forall>j. a \<le> j \<and> j < h \<longrightarrow> \<not> P j) \<and> hs = filter P [Suc h..<b]"
proof (induction "b - a" arbitrary: a)
  case 0
  then show ?case by simp
next
  case (Suc n)
  then have ab: "a < b" by simp
  then have u: "[a..<b] = a # [Suc a..<b]" by (simp add: upt_conv_Cons)
  show ?case
  proof (cases "P a")
    case True
    with Suc.prems u ab show ?thesis by auto
  next
    case False
    with Suc.prems u have f: "filter P [Suc a..<b] = h # hs" by simp
    from Suc.hyps(2) have "n = b - Suc a" by simp
    from Suc.hyps(1) [OF this f] False show ?thesis
      by (metis Suc_leD Suc_leI le_neq_implies_less)
  qed
qed

lemma filter_upt_Nil:
  "filter P [a..<b] = [] \<Longrightarrow> a \<le> j \<Longrightarrow> j < b \<Longrightarrow> \<not> P j"
  by (simp add: filter_empty_conv)

lemma increment_scan:
  assumes b: "it_begin it = 0" and e: "it_end it = length m" and q: "it_current it < length m"
    and d: "0 < d"
    and stop: "fst (m ! ((it_current it + d) mod length m)) = it_key it \<or>
      fst (m ! ((it_current it + d) mod length m)) = it_empty_key_sentinel it"
    and pass: "\<And>j. 0 < j \<Longrightarrow> j < d \<Longrightarrow>
      fst (m ! ((it_current it + j) mod length m)) \<noteq> it_key it \<and>
      fst (m ! ((it_current it + j) mod length m)) \<noteq> it_empty_key_sentinel it"
  shows "increment m it =
    Some (Inr (it\<lparr>it_current :=
      if fst (m ! ((it_current it + d) mod length m)) = it_key it
      then (it_current it + d) mod length m else it_end it\<rparr>))"
proof -
  let ?n = "length m"
  let ?p = "it_current it"
  let ?q = "(?p + 1) mod ?n"
  from q have n: "0 < ?n" by (cases m) auto
  from d obtain d' where d': "d = Suc d'" by (cases d) auto
  have shift: "(?q + j) mod ?n = (?p + Suc j) mod ?n" for j
    by (simp add: mod_add_left_eq)
  have nxt: "it_next_slot it ?p = ?q"
    using b e q by (rule it_next_slot_mod)
  have "advance_loop m (it\<lparr>it_current := ?q\<rparr>) =
      Some (Inr (it\<lparr>it_current :=
        if fst (m ! ((?q + d') mod ?n)) = it_key it then (?q + d') mod ?n else it_end it\<rparr>))"
  proof (rule advance_loop_scan [OF b e])
    show "?q < ?n" using n by simp
    show "fst (m ! ((?q + d') mod ?n)) = it_key it \<or>
        fst (m ! ((?q + d') mod ?n)) = it_empty_key_sentinel it"
      using stop unfolding shift d' .
    show "fst (m ! ((?q + j) mod ?n)) \<noteq> it_key it \<and>
        fst (m ! ((?q + j) mod ?n)) \<noteq> it_empty_key_sentinel it" if "j < d'" for j
      using pass [of "Suc j"] that unfolding shift d' by simp
  qed
  then show ?thesis
    unfolding increment_def nxt shift d' [symmetric] .
qed


lemma increments_hits:
  assumes b: "it_begin it = 0" and e: "it_end it = length m" and p: "p < length m"
    and k: "it_key it \<noteq> it_empty_key_sentinel it"
    and D: "fst (m ! ((p + D) mod length m)) = it_empty_key_sentinel it"
    and ne: "\<And>j. 0 < j \<Longrightarrow> j < D \<Longrightarrow>
      fst (m ! ((p + j) mod length m)) \<noteq> it_empty_key_sentinel it"
  shows "a < D \<Longrightarrow>
    (\<forall>i<length (filter (\<lambda>j. fst (m ! ((p + j) mod length m)) = it_key it) [Suc a..<D]).
       increments m (Suc i) (it\<lparr>it_current := (p + a) mod length m\<rparr>) =
         Some (Inr (it\<lparr>it_current :=
           (p + filter (\<lambda>j. fst (m ! ((p + j) mod length m)) = it_key it) [Suc a..<D] ! i)
             mod length m\<rparr>))) \<and>
    increments m (Suc (length (filter (\<lambda>j. fst (m ! ((p + j) mod length m)) = it_key it)
         [Suc a..<D]))) (it\<lparr>it_current := (p + a) mod length m\<rparr>) =
      Some (Inr (it\<lparr>it_current := it_end it\<rparr>))"
proof (induction "D - a" arbitrary: a rule: less_induct)
  case less
  let ?n = "length m"
  let ?P = "\<lambda>j. fst (m ! ((p + j) mod ?n)) = it_key it"
  let ?at = "\<lambda>a. it\<lparr>it_current := (p + a) mod ?n\<rparr>"
  let ?hits = "filter ?P [Suc a..<D]"
  from p have n: "0 < ?n" by (cases m) auto
  have fields: "it_begin (?at a) = 0" "it_end (?at a) = ?n" "it_current (?at a) < ?n"
    "it_key (?at a) = it_key it" "it_empty_key_sentinel (?at a) = it_empty_key_sentinel it"
    "it_current (?at a) = (p + a) mod ?n"
    using b e n by simp_all
  have off: "((p + a) mod ?n + d) mod ?n = (p + (a + d)) mod ?n" for d
    by (simp add: mod_add_left_eq add.assoc)
  show ?case
  proof (cases ?hits)
    case Nil
    have nm: "\<not> ?P j" if "Suc a \<le> j" "j < D" for j
      using filter_upt_Nil [OF Nil that] .
    have "increment m (?at a) =
        Some (Inr ((?at a)\<lparr>it_current :=
          if fst (m ! ((it_current (?at a) + (D - a)) mod ?n)) = it_key (?at a)
          then (it_current (?at a) + (D - a)) mod ?n else it_end (?at a)\<rparr>))"
    proof (rule increment_scan [OF fields(1,2,3)])
      show "0 < D - a" using less.prems by simp
      show "fst (m ! ((it_current (?at a) + (D - a)) mod ?n)) = it_key (?at a) \<or>
          fst (m ! ((it_current (?at a) + (D - a)) mod ?n)) = it_empty_key_sentinel (?at a)"
        unfolding fields off using D less.prems by simp
      show "fst (m ! ((it_current (?at a) + j) mod ?n)) \<noteq> it_key (?at a) \<and>
          fst (m ! ((it_current (?at a) + j) mod ?n)) \<noteq> it_empty_key_sentinel (?at a)"
        if "0 < j" "j < D - a" for j
        unfolding fields off using nm [of "a + j"] ne [of "a + j"] that by simp
    qed
    also have "fst (m ! ((it_current (?at a) + (D - a)) mod ?n)) = it_empty_key_sentinel it"
      unfolding fields off using D less.prems by simp
    finally have "increment m (?at a) = Some (Inr (it\<lparr>it_current := it_end it\<rparr>))"
      using k by simp
    with Nil show ?thesis by simp
  next
    case (Cons h hs)
    from filter_upt_Cons [OF Cons]
    have h: "Suc a \<le> h" "h < D" "?P h" and nm: "\<And>j. Suc a \<le> j \<Longrightarrow> j < h \<Longrightarrow> \<not> ?P j"
      and hs: "hs = filter ?P [Suc h..<D]"
      by blast+
    have "increment m (?at a) =
        Some (Inr ((?at a)\<lparr>it_current :=
          if fst (m ! ((it_current (?at a) + (h - a)) mod ?n)) = it_key (?at a)
          then (it_current (?at a) + (h - a)) mod ?n else it_end (?at a)\<rparr>))"
    proof (rule increment_scan [OF fields(1,2,3)])
      show "0 < h - a" using h by simp
      show "fst (m ! ((it_current (?at a) + (h - a)) mod ?n)) = it_key (?at a) \<or>
          fst (m ! ((it_current (?at a) + (h - a)) mod ?n)) = it_empty_key_sentinel (?at a)"
        unfolding fields off using h by simp
      show "fst (m ! ((it_current (?at a) + j) mod ?n)) \<noteq> it_key (?at a) \<and>
          fst (m ! ((it_current (?at a) + j) mod ?n)) \<noteq> it_empty_key_sentinel (?at a)"
        if "0 < j" "j < h - a" for j
        unfolding fields off using nm [of "a + j"] ne [of "a + j"] that h by simp
    qed
    also have "fst (m ! ((it_current (?at a) + (h - a)) mod ?n)) = it_key it"
      unfolding fields off using h by simp
    finally have inc: "increment m (?at a) = Some (Inr (?at h))"
      unfolding fields off using h by simp
    have "D - h < D - a" using h by simp
    from less.hyps [OF this h(2)] hs
    have ih: "\<And>i. i < length hs \<Longrightarrow>
        increments m (Suc i) (?at h) = Some (Inr (?at (hs ! i)))"
      and ihe: "increments m (Suc (length hs)) (?at h) = Some (Inr (it\<lparr>it_current := it_end it\<rparr>))"
      by simp_all
    have "increments m (Suc i) (?at a) = Some (Inr (?at ((h # hs) ! i)))"
      if "i < length (h # hs)" for i
    proof (cases i)
      case 0
      with inc show ?thesis by simp
    next
      case (Suc i')
      with that have "i' < length hs" by simp
      from ih [OF this] inc Suc show ?thesis by simp
    qed
    moreover have "increments m (Suc (length (h # hs))) (?at a) =
        Some (Inr (it\<lparr>it_current := it_end it\<rparr>))"
      using inc ihe by simp
    ultimately show ?thesis unfolding Cons by blast
  qed
qed

text \<open>
  Claim C6 ends: the sequence is forward-only and never restarts. In a storage without an
  empty slot the probe of \<^verbatim>\<open>operator++\<close> wraps around: with the slots \<open>(1, 10)\<close> and
  \<open>(2, 20)\<close> the iterator for key 1 at slot 0 is at slot 0 again after \<^verbatim>\<open>operator++\<close>, so the
  same slot is yielded over and over. And \<^verbatim>\<open>operator++\<close> applied to the end iterator
  starts again at slot 0.
\<close>

theorem find_all_iterator_restarts_counterexample:
  "increment [(1, 10), (2, 20)]
     (make_FancyIterator 0 1
        \<lparr>capacity = 2, empty_key_sentinel = - 1, empty_value_sentinel = - 1, step_size = 0\<rparr>) =
   Some (Inr (make_FancyIterator 0 1
        \<lparr>capacity = 2, empty_key_sentinel = - 1, empty_value_sentinel = - 1, step_size = 0\<rparr>)) \<and>
   increment [(1, 10), (- 1, - 1)]
     (make_FancyIterator 2 1
        \<lparr>capacity = 2, empty_key_sentinel = - 1, empty_value_sentinel = - 1, step_size = 0\<rparr>) =
   Some (Inr (make_FancyIterator 0 1
        \<lparr>capacity = 2, empty_key_sentinel = - 1, empty_value_sentinel = - 1, step_size = 0\<rparr>))"
  by (simp add: increment_def make_FancyIterator_def it_next_slot_def advance_loop.simps)

text \<open>
  Claim C6, amended. Let the iterator for a key \<open>k\<close> other than the sentinel stand at slot
  \<open>p\<close>, and let the first empty slot of the linear probe sequence after \<open>p\<close> be \<open>D\<close> steps
  away. Let \<open>hits\<close> be the distances below \<open>D\<close> at which the slot holds \<open>k\<close>, in increasing
  order. Then \<open>D\<close> is at most the capacity; after \<open>i + 1\<close> applications of \<^verbatim>\<open>operator++\<close>,
  each of which returns, the iterator is on the slot at distance \<open>hits ! i\<close>, so it passes
  the slots that hold other keys and stops at each slot that holds \<open>k\<close>, in probe order; the
  application after the last of them returns the end iterator, at the first empty slot; and
  the slots visited are pairwise distinct and differ from \<open>p\<close>: the iterator only moves
  forward and never comes back to a slot.
\<close>

theorem find_all_iterator_advance:
  assumes it: "it = make_FancyIterator p k v" and c: "capacity v = length m"
    and p: "p < length m" and k: "k \<noteq> empty_key_sentinel v"
    and D0: "0 < D" and D: "fst (m ! ((next_slot v ^^ D) p)) = empty_key_sentinel v"
    and ne: "\<forall>j. 0 < j \<and> j < D \<longrightarrow> fst (m ! ((next_slot v ^^ j) p)) \<noteq> empty_key_sentinel v"
    and hits: "hits = filter (\<lambda>j. fst (m ! ((next_slot v ^^ j) p)) = k) [1..<D]"
  shows "D \<le> length m \<and>
    (\<forall>i<length hits.
       increments m (Suc i) it =
         Some (Inr (make_FancyIterator ((next_slot v ^^ (hits ! i)) p) k v))) \<and>
    increments m (Suc (length hits)) it = Some (Inr (make_FancyIterator (capacity v) k v)) \<and>
    distinct (p # map (\<lambda>j. (next_slot v ^^ j) p) hits)"
proof -
  let ?n = "length m"
  have fp: "(next_slot v ^^ j) p = (p + j) mod ?n" for j
    using next_slot_funpow [of p v j] p c by simp
  have b: "it_begin it = 0" and e: "it_end it = ?n" and ky: "it_key it = k"
    and ek: "it_empty_key_sentinel it = empty_key_sentinel v"
    by (simp_all add: it make_FancyIterator_def c)
  have at: "it\<lparr>it_current := q\<rparr> = make_FancyIterator q k v" for q
    by (simp add: it make_FancyIterator_def)
  have it0: "it = it\<lparr>it_current := (p + 0) mod ?n\<rparr>"
    using p by (simp add: it make_FancyIterator_def)
  have Dn: "D \<le> ?n"
  proof (rule ccontr)
    assume "\<not> D \<le> ?n"
    then have j: "0 < D - ?n" "D - ?n < D" using p by simp_all
    have "(p + (D - ?n)) mod ?n = (p + (D - ?n) + ?n) mod ?n" by simp
    also have "p + (D - ?n) + ?n = p + D" using j by simp
    finally have "fst (m ! ((p + (D - ?n)) mod ?n)) = empty_key_sentinel v"
      using D unfolding fp by simp
    with ne j show False unfolding fp by blast
  qed
  have hits': "hits = filter (\<lambda>j. fst (m ! ((p + j) mod ?n)) = it_key it) [Suc 0..<D]"
    unfolding hits fp ky by simp
  have "(\<forall>i<length hits.
       increments m (Suc i) (it\<lparr>it_current := (p + 0) mod ?n\<rparr>) =
         Some (Inr (it\<lparr>it_current := (p + hits ! i) mod ?n\<rparr>))) \<and>
    increments m (Suc (length hits)) (it\<lparr>it_current := (p + 0) mod ?n\<rparr>) =
      Some (Inr (it\<lparr>it_current := it_end it\<rparr>))"
    unfolding hits'
  proof (rule increments_hits [OF b e p _ _ _ D0])
    show "it_key it \<noteq> it_empty_key_sentinel it" using k by (simp add: ky ek)
    show "fst (m ! ((p + D) mod ?n)) = it_empty_key_sentinel it"
      using D unfolding fp ek .
    show "fst (m ! ((p + j) mod ?n)) \<noteq> it_empty_key_sentinel it" if "0 < j" "j < D" for j
      using ne that unfolding fp ek by blast
  qed
  then have run: "\<forall>i<length hits.
       increments m (Suc i) it = Some (Inr (make_FancyIterator ((p + hits ! i) mod ?n) k v))"
    and fin: "increments m (Suc (length hits)) it = Some (Inr (make_FancyIterator ?n k v))"
    unfolding it0 [symmetric] at e by blast+
  have sub: "set (0 # hits) \<subseteq> {j. j < ?n}"
    using Dn p unfolding hits by auto
  have "distinct (0 # hits)" unfolding hits by simp
  moreover have "inj_on (\<lambda>j. (p + j) mod ?n) (set (0 # hits))"
  proof (rule inj_onI)
    fix x y
    assume "x \<in> set (0 # hits)" "y \<in> set (0 # hits)" "(p + x) mod ?n = (p + y) mod ?n"
    with sub have "x < ?n" "y < ?n" "(p + x) mod ?n = (p + y) mod ?n" by auto
    then show "x = y" by (rule mod_add_inj)
  qed
  ultimately have "distinct (map (\<lambda>j. (p + j) mod ?n) (0 # hits))"
    by (simp only: distinct_map simp_thms)
  then have dist: "distinct (p # map (\<lambda>j. (p + j) mod ?n) hits)"
    using p by simp
  from Dn run fin dist show ?thesis
    unfolding fp c by simp
qed

theorem find_all_iterator_advance_witness:
  "increments [(1, 10), (3, 30), (1, 20), (- 1, - 1)] (Suc 0)
     (make_FancyIterator 0 1
        \<lparr>capacity = 4, empty_key_sentinel = - 1, empty_value_sentinel = - 1, step_size = 0\<rparr>) =
   Some (Inr (make_FancyIterator 2 1
        \<lparr>capacity = 4, empty_key_sentinel = - 1, empty_value_sentinel = - 1, step_size = 0\<rparr>)) \<and>
   increments [(1, 10), (3, 30), (1, 20), (- 1, - 1)] (Suc (Suc 0))
     (make_FancyIterator 0 1
        \<lparr>capacity = 4, empty_key_sentinel = - 1, empty_value_sentinel = - 1, step_size = 0\<rparr>) =
   Some (Inr (make_FancyIterator 4 1
        \<lparr>capacity = 4, empty_key_sentinel = - 1, empty_value_sentinel = - 1, step_size = 0\<rparr>))"
proof -
  let ?v = "\<lparr>capacity = 4, empty_key_sentinel = - 1, empty_value_sentinel = - 1,
     step_size = 0\<rparr> :: device_view_base"
  let ?m = "[(1, 10), (3, 30), (1, 20), (- 1, - 1)] :: slots"
  have n: "(next_slot ?v ^^ j) 0 = j" if "j < 4" for j
    using that next_slot_funpow [of 0 ?v j] by simp
  have n1: "(next_slot ?v ^^ 1) 0 = 1" and n2: "(next_slot ?v ^^ 2) 0 = 2"
    and n3: "(next_slot ?v ^^ 3) 0 = 3"
    using n [of 1] n [of 2] n [of 3] by simp_all
  have u: "[1..<3] = [1, 2::nat]" by (simp add: upt_conv_Cons)
  have hits: "[2] = filter (\<lambda>j. fst (?m ! ((next_slot ?v ^^ j) 0)) = 1) [1..<3]"
    unfolding u using n1 n2 by simp
  have ne: "\<forall>j. 0 < j \<and> j < 3 \<longrightarrow> fst (?m ! ((next_slot ?v ^^ j) 0)) \<noteq> empty_key_sentinel ?v"
  proof (intro allI impI)
    fix j :: nat
    assume "0 < j \<and> j < 3"
    then have "j = 1 \<or> j = 2" by linarith
    then show "fst (?m ! ((next_slot ?v ^^ j) 0)) \<noteq> empty_key_sentinel ?v"
      using n1 n2 by auto
  qed
  have D: "fst (?m ! ((next_slot ?v ^^ 3) 0)) = empty_key_sentinel ?v"
    unfolding n3 by simp
  from find_all_iterator_advance [OF refl _ _ _ _ D ne hits]
  show ?thesis
    using n2 by simp
qed
section \<open>Identity hash of a key\<close>

lemma of_bytes_append: "of_bytes (xs @ ys) = of_bytes xs + 256 ^ length xs * of_bytes ys"
  by (induction xs) (simp_all add: algebra_simps)

lemma of_bytes_to_bytes: "of_bytes (to_bytes n x) = x mod 256 ^ n"
proof (induction n)
  case 0
  then show ?case by (simp add: to_bytes_def)
next
  case (Suc n)
  have "to_bytes (Suc n) x = to_bytes n x @ [of_nat (x div 256 ^ n mod 256)]"
    by (simp add: to_bytes_def)
  moreover have "unat (of_nat (x div 256 ^ n mod 256) :: byte) = x div 256 ^ n mod 256"
    by (simp add: unat_of_nat)
  moreover have "length (to_bytes n x) = n" by (simp add: to_bytes_def)
  ultimately have "of_bytes (to_bytes (Suc n) x) = x mod 256 ^ n + 256 ^ n * (x div 256 ^ n mod 256)"
    by (simp add: of_bytes_append Suc.IH)
  also have "\<dots> = x mod 256 ^ Suc n"
    by (simp only: power_Suc2 mod_mult2_eq add.commute)
  finally show ?case .
qed

lemma length_to_bytes [simp]: "length (to_bytes n x) = n"
  by (simp add: to_bytes_def)

lemma load_chunk_whole:
  assumes "x < 256 ^ n"
  shows "load_chunk stride n (to_bytes n x) 0 = Some x"
  using assms by (simp add: load_chunk_def of_bytes_to_bytes)

lemma IdentityHash_32_key:
  "IdentityHash_32 stride seed (to_bytes 4 (unat (k :: 32 word))) = Some (k XOR seed)"
proof -
  have "unat k < 256 ^ 4" using unsigned_less [of k] by simp
  then have "load_chunk stride 4 (to_bytes 4 (unat k)) 0 = Some (unat k)"
    by (rule load_chunk_whole)
  then show ?thesis
    by (simp add: IdentityHash_32_def IdentityHash_32_compute_hash_def)
qed

lemma IdentityHash_64_key:
  "IdentityHash_64 stride seed (to_bytes 8 (unat (k :: 64 word))) = Some (k XOR seed)"
proof -
  have "unat k < 256 ^ 8" using unsigned_less [of k] by simp
  then have "load_chunk stride 8 (to_bytes 8 (unat k)) 0 = Some (unat k)"
    by (rule load_chunk_whole)
  then show ?thesis
    by (simp add: IdentityHash_64_def IdentityHash_64_compute_hash_def)
qed

lemma IdentityHash_32_small:
  assumes "length bs < 3"
  shows "IdentityHash_32 stride seed (b # bs) = Some ((ucast b AND 2 ^ (length bs + 1)) XOR seed)"
proof -
  from assms consider "length bs = 0" | "length bs = 1" | "length bs = 2"
    by linarith
  then show ?thesis
    by cases (simp_all add: IdentityHash_32_def IdentityHash_32_compute_hash_def)
qed

lemma IdentityHash_64_small:
  assumes "length bs < 7"
  shows "IdentityHash_64 stride seed (b # bs) = Some ((ucast b AND 2 ^ length bs) XOR seed)"
proof -
  from assms consider "length bs = 0" | "length bs = 1" | "length bs = 2" | "length bs = 3"
    | "length bs = 4" | "length bs = 5" | "length bs = 6"
    by linarith
  then show ?thesis
    by cases (simp_all add: IdentityHash_64_def IdentityHash_64_compute_hash_def)
qed

text \<open>
  Claim C8. For a key as wide as the hash value the claim holds: \<open>IdentityHash_32\<close> of a
  32-bit key and \<open>IdentityHash_64\<close> of a 64-bit key are the key XORed with the seed
  (lemmas \<open>IdentityHash_32_key\<close> and \<open>IdentityHash_64_key\<close>). For a narrower key the
  mask of \<^verbatim>\<open>compute_hash\<close> has a single bit, so the hash is not an extraction of the bit
  pattern of the key: with seed 0, \<open>IdentityHash_64\<close> maps the 4-byte key 1 to 0 and the
  4-byte key 9 to 8, and \<open>IdentityHash_32\<close> maps the 2-byte key 1 to 0 and the 2-byte key
  65535 to 4.
\<close>

theorem identity_hash_narrow_key:
  "IdentityHash_64 8 0 (to_bytes 4 1) = Some 0 \<and>
   IdentityHash_64 8 0 (to_bytes 4 9) = Some 8 \<and>
   IdentityHash_32 4 0 (to_bytes 2 1) = Some 0 \<and>
   IdentityHash_32 4 0 (to_bytes 2 65535) = Some 4"
proof -
  have b: "to_bytes 4 1 = [1, 0, 0, 0]" "to_bytes 4 9 = [9, 0, 0, 0]"
    "to_bytes 2 1 = [1, 0]" "to_bytes 2 65535 = [255, 255]"
    by (simp_all add: to_bytes_def upt_conv_Cons)
  show ?thesis
    unfolding b by (simp add: IdentityHash_32_small IdentityHash_64_small)
qed
section \<open>Inserted keys lie on their probe sequence\<close>



lemma cg_window_0 [simp]: "cg_window v cur 0 = cur"
  by (simp add: cg_window_def)


















section \<open>Every occupied slot is published once the groups have returned\<close>








section \<open>The cooperative lookup\<close>












section \<open>Host bulk find\<close>








end
